theory Spec2Isabelle
  imports Main "HOL-Library.Word" "HOL-Library.Multiset"
begin


section \<open>The bucketing structure of \<^verbatim>\<open>src/src/bucket.h\<close>\<close>

text \<open>
  The structure keeps \<open>total_buckets\<close> slots: \<open>open_buckets = total_buckets - 1\<close> open
  slots for the bucket numbers of the current range and one overflow slot. Machine
  integers are modelled with their width: \<open>uintE\<close> (bucket numbers, identifiers, the
  counters of the histogram) is a 32-bit word, the default of the library's
  \<^verbatim>\<open>lib/macros.h\<close>, and \<open>size_t\<close> is a 64-bit word. All arithmetic wraps around
  as in the program; conversions between the two widths are \<open>ucast\<close>.
\<close>

type_synonym uintE = "32 word"
type_synonym size_t = "64 word"
type_synonym bucket_id = uintE
type_synonym bucket_dest = uintE

datatype bucket_order = decreasing | increasing

text \<open>What stops the program: an index outside an array, a division by zero, and the
  failed assertion of \<open>unpack\<close>, which carries the values the diagnostic prints
  (\<open>m\<close>, \<open>num_elms\<close> and the current bucket number).\<close>

datatype error = OutOfBounds | DivByZero | Corrupt size_t size_t size_t

text \<open>\<open>struct bucket\<close>. The constructor leaves \<open>num_filtered\<close> uninitialised
  (\<open>None\<close>); \<open>get_cur_bucket\<close> sets it.\<close>

record bucket =
  bkt_id :: size_t
  num_filtered :: "size_t option"
  identifiers :: "uintE list"

subsection \<open>The storage slot\<close>

text \<open>
  \<^verbatim>\<open>lib/dyn_arr.h\<close> is outside the sources; the slot is modelled from the
  specification's section 4.5. \<open>da_A\<close> is the buffer (its length is the capacity), and
  \<open>da_size\<close> the number of logically valid items, which are the first \<open>da_size\<close>
  cells of the buffer. A cell that the program has not initialised holds \<open>0\<close>.
\<close>

record dyn_arr =
  da_A :: "uintE list"
  da_size :: size_t

definition empty_arr :: dyn_arr where
  "empty_arr = \<lparr>da_A = [], da_size = 0\<rparr>"

definition elems :: "dyn_arr \<Rightarrow> uintE list" where
  "elems a = take (unat (da_size a)) (da_A a)"

text \<open>Modelled from the spec: \<open>resize(delta)\<close> ensures capacity for \<open>delta\<close> more items
  beyond the current size, never shrinks, grows geometrically, and leaves the size
  field untouched.\<close>

definition resize :: "size_t \<Rightarrow> dyn_arr \<Rightarrow> dyn_arr" where
  "resize delta a =
     (if length (da_A a) < unat (da_size a) + unat delta
      then a\<lparr>da_A := da_A a @
             replicate (2 * (unat (da_size a) + unat delta) - length (da_A a)) 0\<rparr>
      else a)"

text \<open>Modelled from the spec: \<open>insert(v, offset)\<close> writes \<open>v\<close> into the reserved space at
  the caller's offset and does not touch the size field. The scatter phase "appends to
  its destination slot at the current cursor", and its cursors start at \<open>0\<close> for every
  slot, so the offset counts from the slot's logical size.\<close>

definition insert_at :: "uintE \<Rightarrow> size_t \<Rightarrow> dyn_arr \<Rightarrow> dyn_arr" where
  "insert_at v pos a = a\<lparr>da_A := (da_A a)[unat (da_size a + pos) := v]\<rparr>"

subsection \<open>The structure\<close>

text \<open>\<open>struct buckets\<close>. The fields \<open>n\<close> and \<open>d\<close> of the source are \<open>n_b\<close> and \<open>d_b\<close>
  here. The oracle \<open>d_b\<close> is the consumer's callable; a consumer that changes a priority
  changes this field.\<close>

record buckets =
  order :: bucket_order
  bkts :: "dyn_arr list"
  cur_bkt :: size_t
  max_bkt :: size_t
  cur_range :: size_t
  d_b :: "uintE \<Rightarrow> uintE"
  n_b :: size_t
  num_elms :: size_t
  open_buckets :: size_t
  total_buckets :: size_t
  allocated :: bool

definition null_bkt :: uintE where
  "null_bkt = 4294967295"

text \<open>\<open>to_range\<close>: the comparisons and products are in \<open>size_t\<close>, the result is
  converted to the 32-bit \<open>bucket_id\<close>.\<close>

definition to_range :: "buckets \<Rightarrow> uintE \<Rightarrow> bucket_id" where
  "to_range s bkt =
     (if order s = increasing then
        (if ucast bkt < cur_range s * open_buckets s then null_bkt
         else if ucast bkt < (cur_range s + 1) * open_buckets s
              then ucast ((ucast bkt :: size_t) mod open_buckets s)
              else ucast (open_buckets s))
      else
        (if cur_range s * open_buckets s \<le> ucast bkt then null_bkt
         else if (cur_range s - 1) * open_buckets s \<le> ucast bkt
              then ucast ((open_buckets s - ((ucast bkt :: size_t) mod open_buckets s)) - 1)
              else ucast (open_buckets s)))"

definition get_bucket :: "buckets \<Rightarrow> bucket_id \<Rightarrow> bucket_id \<Rightarrow> bucket_dest" where
  "get_bucket s prev next =
     (let pb = to_range s prev;
          nb = to_range s next
      in if nb \<noteq> null_bkt \<and> (prev = null_bkt \<or> pb \<noteq> nb \<or> ucast nb = cur_bkt s)
         then nb
         else null_bkt)"

definition get_cur_bucket_num :: "buckets \<Rightarrow> size_t" where
  "get_cur_bucket_num s =
     (if order s = increasing
      then cur_range s * open_buckets s + cur_bkt s
      else cur_range s * open_buckets s - cur_bkt s - 1)"

subsection \<open>Loops\<close>

text \<open>\<open>for (size_t j = s; j < e; j++)\<close> runs over \<open>range_sz s e\<close>; the body may stop the
  program.\<close>

definition range_sz :: "size_t \<Rightarrow> size_t \<Rightarrow> size_t list" where
  "range_sz s e = map of_nat [unat s ..< unat e]"

primrec for_loop :: "'i list \<Rightarrow> ('i \<Rightarrow> 's \<Rightarrow> error + 's) \<Rightarrow> 's \<Rightarrow> error + 's" where
  "for_loop [] body s = Inr s"
| "for_loop (i # is) body s =
     (case body i s of Inl e \<Rightarrow> Inl e | Inr s' \<Rightarrow> for_loop is body s')"

subsection \<open>The sequential update\<close>

text \<open>\<open>Maybe<tuple<uintE, uintE>>\<close> is an option of a pair (identifier, slot).\<close>

type_synonym update_fn = "size_t \<Rightarrow> (uintE \<times> bucket_dest) option"

text \<open>\<open>insert_in_bucket\<close> reads the slot's size into an \<open>intT\<close> and indexes the buffer with
  it. \<open>intT\<close> is declared in \<^verbatim>\<open>lib/macros.h\<close>, outside the sources; it is taken as the
  32-bit \<open>int\<close> of the default build, as \<open>uintE\<close> is the 32-bit \<open>unsigned int\<close>. A size whose
  low 32 bits read as a negative \<open>int\<close> indexes before the buffer, which stops the program.
  The value \<open>val\<close> passes through \<open>intT\<close> and back unchanged. An \<open>intT\<close> is a 32-bit word
  read as a signed number by \<open>sint\<close>.\<close>

type_synonym intT = "32 word"

definition insert_in_bucket :: "nat \<Rightarrow> uintE \<Rightarrow> buckets \<Rightarrow> error + buckets" where
  "insert_in_bucket b val s =
     (let a = bkts s ! b;
          sz = (ucast (da_size a) :: intT)
      in if sint sz < 0 then Inl OutOfBounds
         else Inr (s\<lparr>bkts := (bkts s)[b := a\<lparr>da_A := (da_A a)[nat (sint sz) := val],
                                                 da_size := da_size a + 1\<rparr>]\<rparr>))"

definition update_seq_step :: "update_fn \<Rightarrow> size_t \<Rightarrow> buckets \<Rightarrow> error + buckets" where
  "update_seq_step f i s =
     (case f i of
        None \<Rightarrow> Inr s
      | Some (v, bkt) \<Rightarrow>
          if bkt \<noteq> null_bkt then
            (if unat bkt < length (bkts s) then
               (let s1 = s\<lparr>bkts := (bkts s)[unat bkt := resize 1 (bkts s ! unat bkt)]\<rparr>
                in case insert_in_bucket (unat bkt) v s1 of
                     Inl e \<Rightarrow> Inl e
                   | Inr s2 \<Rightarrow> Inr (s2\<lparr>num_elms := num_elms s2 + 1\<rparr>))
             else Inl OutOfBounds)
          else Inr s)"

definition update_buckets_seq :: "update_fn \<Rightarrow> size_t \<Rightarrow> buckets \<Rightarrow> error + (size_t \<times> buckets)" where
  "update_buckets_seq f k s =
     (let ne_before = num_elms s
      in case for_loop (range_sz 0 k) (update_seq_step f) s of
           Inl e \<Rightarrow> Inl e
         | Inr s' \<Rightarrow> Inr (num_elms s' - ne_before, s'))"

subsection \<open>The parallel update\<close>

text \<open>
  The scratch arrays \<open>hists\<close> and \<open>outs\<close> are stores from an index to a counter; the
  indices are computed in \<open>size_t\<close> as the program computes them. A \<open>par_for\<close> over
  blocks is run block by block: a block writes only its own histogram cells, its own
  cursors and the buffer cells its cursors point to.
\<close>

type_synonym store = "nat \<Rightarrow> uintE"

definition CACHE_LINE_S :: size_t where
  "CACHE_LINE_S = 64"

text \<open>Step 1, for block \<open>i\<close>: clear the block's histogram and count the destinations of
  the block's items. A destination outside the slot array stops the program.\<close>

definition hist_item :: "update_fn \<Rightarrow> nat \<Rightarrow> size_t \<Rightarrow> size_t \<Rightarrow> store \<Rightarrow> error + store" where
  "hist_item f nslots base j hists =
     (case f j of
        None \<Rightarrow> Inr hists
      | Some (v, b) \<Rightarrow>
          if b \<noteq> null_bkt then
            (if unat b < nslots
             then Inr (hists(unat (base + ucast b) := hists (unat (base + ucast b)) + 1))
             else Inl OutOfBounds)
          else Inr hists)"

definition hist_block ::
  "update_fn \<Rightarrow> size_t \<Rightarrow> size_t \<Rightarrow> size_t \<Rightarrow> nat \<Rightarrow> size_t \<Rightarrow> store \<Rightarrow> error + store" where
  "hist_block f k block_size tb nslots i hists =
     (let s = i * block_size;
          e = min (s + block_size) k;
          base = i * tb;
          h0 = fold (\<lambda>j h. h(unat (base + j) := 0)) (range_sz 0 tb) hists
      in for_loop (range_sz s e) (hist_item f nslots base) h0)"

text \<open>Step 2. Modelled from the spec: \<open>scan_add\<close> is the exclusive prefix sum of its
  input sequence; \<open>scan_add g i\<close> is the sum of the first \<open>i\<close> inputs, in \<open>uintE\<close>.\<close>

primrec scan_add :: "(nat \<Rightarrow> uintE) \<Rightarrow> nat \<Rightarrow> uintE" where
  "scan_add g 0 = 0"
| "scan_add g (Suc i) = scan_add g i + g i"

definition hist_get :: "store \<Rightarrow> size_t \<Rightarrow> size_t \<Rightarrow> size_t \<Rightarrow> uintE" where
  "hist_get hists num_blocks tb i =
     (let col = i mod num_blocks;
          row = i div num_blocks
      in hists (unat (col * tb + row)))"

definition make_outs :: "store \<Rightarrow> size_t \<Rightarrow> size_t \<Rightarrow> store" where
  "make_outs hists num_blocks tb =
     (\<lambda>j. if j \<le> unat (num_blocks * tb)
          then scan_add (\<lambda>i. hist_get hists num_blocks tb (of_nat i)) j
          else 0)"

definition num_inc :: "store \<Rightarrow> size_t \<Rightarrow> size_t \<Rightarrow> size_t" where
  "num_inc outs num_blocks i =
     ucast (outs (unat ((i + 1) * num_blocks)) - outs (unat (i * num_blocks)))"

text \<open>Step 3: reserve space in every slot and add the increments to \<open>num_elms\<close>.\<close>

definition resize_slot :: "store \<Rightarrow> size_t \<Rightarrow> size_t \<Rightarrow> buckets \<Rightarrow> buckets" where
  "resize_slot outs num_blocks i s =
     s\<lparr>bkts := (bkts s)[unat i := resize (num_inc outs num_blocks i) (bkts s ! unat i)],
       num_elms := num_elms s + num_inc outs num_blocks i\<rparr>"

text \<open>Step 4: the cursor of slot \<open>i\<close> and block \<open>j\<close>, one cache line apart.\<close>

definition offsets_slot :: "store \<Rightarrow> size_t \<Rightarrow> size_t \<Rightarrow> store \<Rightarrow> store" where
  "offsets_slot outs num_blocks i hists =
     (let start = outs (unat (i * num_blocks))
      in fold (\<lambda>j h. h(unat ((i * num_blocks + j) * CACHE_LINE_S) :=
                         outs (unat (i * num_blocks + j)) - start))
              (range_sz 0 num_blocks) hists)"

text \<open>Step 5, for block \<open>i\<close>: write every item at its cursor and advance the cursor.\<close>

definition scatter_item ::
  "update_fn \<Rightarrow> size_t \<Rightarrow> size_t \<Rightarrow> size_t \<Rightarrow> store \<times> buckets \<Rightarrow> error + store \<times> buckets" where
  "scatter_item f num_blocks i j hs =
     (case f j of
        None \<Rightarrow> Inr hs
      | Some (v, b) \<Rightarrow>
          if b \<noteq> null_bkt then
            (if unat b < length (bkts (snd hs)) then
               (let hists = fst hs;
                    s = snd hs;
                    c = unat ((ucast b * num_blocks + i) * CACHE_LINE_S);
                    ind = hists c;
                    s' = s\<lparr>bkts := (bkts s)[unat b := insert_at v (ucast ind) (bkts s ! unat b)]\<rparr>
                in Inr (hists(c := hists c + 1), s'))
             else Inl OutOfBounds)
          else Inr hs)"

definition scatter_block ::
  "update_fn \<Rightarrow> size_t \<Rightarrow> size_t \<Rightarrow> size_t \<Rightarrow> size_t \<Rightarrow> store \<times> buckets
     \<Rightarrow> error + store \<times> buckets" where
  "scatter_block f k block_size num_blocks i hs =
     (let s = i * block_size;
          e = min (s + block_size) k
      in for_loop (range_sz s e) (scatter_item f num_blocks i) hs)"

text \<open>Step 6: commit the sizes.\<close>

definition commit_slot :: "store \<Rightarrow> size_t \<Rightarrow> size_t \<Rightarrow> buckets \<Rightarrow> buckets" where
  "commit_slot outs num_blocks i s =
     (let a = bkts s ! unat i
      in s\<lparr>bkts := (bkts s)[unat i := a\<lparr>da_size := da_size a + num_inc outs num_blocks i\<rparr>]\<rparr>)"

text \<open>The parallel path of \<open>update_buckets\<close> with \<open>num_blocks\<close> blocks. The scratch arrays
  are allocated without initialisation; their cells start as \<open>0\<close>.\<close>

definition update_buckets_par ::
  "size_t \<Rightarrow> update_fn \<Rightarrow> size_t \<Rightarrow> buckets \<Rightarrow> error + (size_t \<times> buckets)" where
  "update_buckets_par num_blocks f k s =
     (let ne_before = num_elms s;
          tb = total_buckets s;
          block_size = (k + num_blocks - 1) div num_blocks;
          blocks = range_sz 0 num_blocks;
          slots = range_sz 0 tb
      in case for_loop blocks (hist_block f k block_size tb (length (bkts s))) (\<lambda>_. 0) of
           Inl e \<Rightarrow> Inl e
         | Inr hists1 \<Rightarrow>
             (let outs = make_outs hists1 num_blocks tb;
                  s3 = fold (resize_slot outs num_blocks) slots s;
                  hists4 = fold (offsets_slot outs num_blocks) slots hists1
              in case for_loop blocks (scatter_block f k block_size num_blocks) (hists4, s3) of
                   Inl e \<Rightarrow> Inl e
                 | Inr (hists5, s5) \<Rightarrow>
                     (let s6 = fold (commit_slot outs num_blocks) slots s5
                      in Inr (num_elms s6 - ne_before, s6))))"

text \<open>The runtime: the number of workers and the library's threshold below which a
  loop runs sequentially (\<^verbatim>\<open>lib/utilities.h\<close> is outside the sources).\<close>

record runtime =
  nworkers :: int
  kSequentialForThreshold :: size_t

text \<open>Modelled from the spec: the block count is \<open>2 ^ \<lceil>log\<^sub>2 (k / 4096)\<rceil>\<close>; \<open>log2_up i\<close> is
  the least \<open>a\<close> with \<open>i \<le> 2 ^ a\<close>.\<close>

definition log2_up :: "size_t \<Rightarrow> nat" where
  "log2_up i = length (takeWhile (\<lambda>a. 2 ^ a < unat i) [0..<64])"

definition update_buckets ::
  "runtime \<Rightarrow> update_fn \<Rightarrow> size_t \<Rightarrow> buckets \<Rightarrow> error + (size_t \<times> buckets)" where
  "update_buckets rt f k s =
     (let num_blocks = k div 4096;
          num_threads = nworkers rt
      in if k < kSequentialForThreshold rt \<or> num_threads = 1
         then update_buckets_seq f k s
         else
           (let block_bits = log2_up num_blocks;
                num_blocks = push_bit block_bits 1
            in update_buckets_par num_blocks f k s))"

subsection \<open>Unpack and iteration\<close>

text \<open>\<open>unpack\<close>: the closure \<open>g\<close> takes its index as a \<open>uintE\<close> and reads \<open>cur_range\<close> when
  \<open>update_buckets\<close> calls it, that is after the range has moved. The assertion is
  modelled as compiled in: a mismatch stops the program after the diagnostic.\<close>

definition unpack :: "runtime \<Rightarrow> buckets \<Rightarrow> error + buckets" where
  "unpack rt s =
     (if length (bkts s) \<le> unat (open_buckets s) then Inl OutOfBounds
      else
        (let ob = unat (open_buckets s);
             m = da_size (bkts s ! ob);
             tmp = elems (bkts s ! ob);
             s1 = s\<lparr>cur_range := (if order s = increasing then cur_range s + 1
                                   else cur_range s - 1)\<rparr>;
             s2 = s1\<lparr>bkts := (bkts s1)[ob := (bkts s1 ! ob)\<lparr>da_size := 0\<rparr>]\<rparr>;
             g = (\<lambda>i. let v = tmp ! unat (ucast i :: uintE)
                       in Some (v, to_range s2 (d_b s2 v)))
         in if m \<noteq> num_elms s2
            then Inl (Corrupt m (num_elms s2) (get_cur_bucket_num (s2\<lparr>cur_bkt := 0\<rparr>)))
            else (case update_buckets rt g m s2 of
                    Inl e \<Rightarrow> Inl e
                  | Inr (c, s3) \<Rightarrow> Inr (s3\<lparr>num_elms := num_elms s3 - m\<rparr>))))"

text \<open>\<open>_next_bucket\<close> of the source.\<close>

definition next_bucket_step :: "runtime \<Rightarrow> buckets \<Rightarrow> error + buckets" where
  "next_bucket_step rt s =
     (let s1 = s\<lparr>cur_bkt := cur_bkt s + 1\<rparr>
      in if cur_bkt s1 = open_buckets s1
         then (case unpack rt s1 of
                 Inl e \<Rightarrow> Inl e
               | Inr s2 \<Rightarrow> Inr (s2\<lparr>cur_bkt := 0\<rparr>))
         else Inr s1)"

definition curBucketNonEmpty :: "buckets \<Rightarrow> bool" where
  "curBucketNonEmpty s = (0 < da_size (bkts s ! unat (cur_bkt s)))"

text \<open>The loop at the head of \<open>next_bucket\<close>:
  \<^verbatim>\<open>while (!curBucketNonEmpty() && num_elms > 0) _next_bucket();\<close>
  It need not terminate on every state, so it is a partial function: \<open>None\<close> is a run
  that never returns.\<close>

partial_function (option) skip_empty :: "runtime \<Rightarrow> buckets \<Rightarrow> (error + buckets) option" where
  "skip_empty rt s =
     (if length (bkts s) \<le> unat (cur_bkt s) then Some (Inl OutOfBounds)
      else if \<not> curBucketNonEmpty s \<and> 0 < num_elms s then
        (case next_bucket_step rt s of
           Inl e \<Rightarrow> Some (Inl e)
         | Inr s' \<Rightarrow> skip_empty rt s')
      else Some (Inr s))"

text \<open>The body of \<open>get_cur_bucket\<close> up to the test \<open>m == 0\<close>: take the current slot,
  subtract its size from \<open>num_elms\<close>, keep the identifiers whose priority is the current
  bucket number, and reset the slot's size.\<close>

definition drain :: "buckets \<Rightarrow> bucket \<times> buckets" where
  "drain s =
     (let bkt = bkts s ! unat (cur_bkt s);
          sz = da_size bkt;
          s1 = s\<lparr>num_elms := num_elms s - sz\<rparr>;
          cur_bkt_num = get_cur_bucket_num s1;
          out = filter (\<lambda>i. ucast (d_b s1 i) = cur_bkt_num) (elems bkt);
          s2 = s1\<lparr>bkts := (bkts s1)[unat (cur_bkt s1) :=
                                      (bkts s1 ! unat (cur_bkt s1))\<lparr>da_size := 0\<rparr>]\<rparr>
      in (\<lparr>bkt_id = cur_bkt_num, num_filtered = Some sz, identifiers = out\<rparr>, s2))"

definition sentinel :: bucket where
  "sentinel = \<lparr>bkt_id = ucast null_bkt, num_filtered = None, identifiers = []\<rparr>"

text \<open>\<open>next_bucket\<close>, with the body of \<open>get_cur_bucket\<close> in place of the call, since the two
  call each other.\<close>

partial_function (option) next_bucket ::
  "runtime \<Rightarrow> buckets \<Rightarrow> (error + bucket \<times> buckets) option" where
  "next_bucket rt s =
     Option.bind (skip_empty rt s) (\<lambda>r.
       case r of
         Inl e \<Rightarrow> Some (Inl e)
       | Inr s1 \<Rightarrow>
           if num_elms s1 = 0 then Some (Inr (sentinel, s1))
           else (case drain s1 of
                   (b, s2) \<Rightarrow>
                     if identifiers b = [] then next_bucket rt s2
                     else Some (Inr (b, s2))))"

declare skip_empty.simps [code] next_bucket.simps [code]

definition get_cur_bucket :: "runtime \<Rightarrow> buckets \<Rightarrow> (error + bucket \<times> buckets) option" where
  "get_cur_bucket rt s =
     (case drain s of
        (b, s2) \<Rightarrow>
          if identifiers b = [] then next_bucket rt s2
          else Some (Inr (b, s2)))"

subsection \<open>Construction\<close>

text \<open>Modelled from the spec: \<open>pbbs::reduce\<close> is the parallel min/max reduction over the
  \<open>n\<close> priorities; for an empty sequence the model returns the operator's neutral
  element.\<close>

definition reduce :: "(uintE \<Rightarrow> uintE \<Rightarrow> uintE) \<Rightarrow> uintE \<Rightarrow> uintE list \<Rightarrow> uintE" where
  "reduce f e xs = fold f xs e"

text \<open>The constructor. \<open>cur_range\<close> has no value before the reduction sets it; a
  \<open>total_buckets\<close> of 1 divides by zero.\<close>

definition make_buckets ::
  "runtime \<Rightarrow> size_t \<Rightarrow> (uintE \<Rightarrow> uintE) \<Rightarrow> bucket_order \<Rightarrow> size_t \<Rightarrow> error + buckets" where
  "make_buckets rt n d ord tb =
     (let s0 = \<lparr>order = ord, bkts = replicate (unat tb) empty_arr, cur_bkt = 0,
                max_bkt = tb, cur_range = 0, d_b = d, n_b = n, num_elms = 0,
                open_buckets = tb - 1, total_buckets = tb, allocated = True\<rparr>
      in if open_buckets s0 = 0 then Inl DivByZero
         else
           (let s1 =
                  (if ord = increasing then
                     (let imap = map (\<lambda>i. d (ucast i)) (range_sz 0 n);
                          min_b = reduce min null_bkt imap
                      in s0\<lparr>cur_range := ucast min_b div open_buckets s0\<rparr>)
                   else
                     (let imap = map (\<lambda>i. if d (ucast i) = null_bkt then 0 else d (ucast i))
                                     (range_sz 0 n);
                          max_b = reduce max 0 imap
                      in s0\<lparr>cur_range := (ucast max_b + open_buckets s0) div open_buckets s0\<rparr>));
                get_id_and_bkt =
                  (\<lambda>i. let bkt = d (ucast i)
                        in Some (ucast i, if bkt \<noteq> null_bkt then to_range s1 bkt else bkt))
            in case update_buckets rt get_id_and_bkt n s1 of
                 Inl e \<Rightarrow> Inl e
               | Inr (c, s2) \<Rightarrow> Inr s2))"

definition wf_arr :: "dyn_arr \<Rightarrow> bool" where
  "wf_arr a \<longleftrightarrow> unat (da_size a) \<le> length (da_A a)"

definition dest_of :: "update_fn \<Rightarrow> size_t \<Rightarrow> (uintE \<times> bucket_dest) option" where
  "dest_of f i =
     (case f i of None \<Rightarrow> None
      | Some (v, b) \<Rightarrow> if b \<noteq> null_bkt then Some (v, b) else None)"

definition batch :: "update_fn \<Rightarrow> size_t list \<Rightarrow> (uintE \<times> bucket_dest) list" where
  "batch f js = List.map_filter (dest_of f) js"

definition added :: "update_fn \<Rightarrow> size_t list \<Rightarrow> nat \<Rightarrow> uintE list" where
  "added f js b = map fst (filter (\<lambda>vb. unat (snd vb) = b) (batch f js))"

text \<open>one push: resize(1) then insert_in_bucket\<close>

definition push_arr :: "uintE \<Rightarrow> dyn_arr \<Rightarrow> dyn_arr" where
  "push_arr v a = (let a1 = resize 1 a in
      a1\<lparr>da_A := (da_A a1)[nat (sint (ucast (da_size a1) :: intT)) := v],
         da_size := da_size a1 + 1\<rparr>)"

definition frame_eq :: "buckets \<Rightarrow> buckets \<Rightarrow> bool" where
  "frame_eq s s' \<longleftrightarrow>
     order s' = order s \<and> cur_bkt s' = cur_bkt s \<and> max_bkt s' = max_bkt s \<and>
     cur_range s' = cur_range s \<and> d_b s' = d_b s \<and> n_b s' = n_b s \<and>
     open_buckets s' = open_buckets s \<and> total_buckets s' = total_buckets s \<and>
     allocated s' = allocated s"

definition slots_extend :: "(nat \<Rightarrow> uintE list) \<Rightarrow> buckets \<Rightarrow> buckets \<Rightarrow> bool" where
  "slots_extend X s s' \<longleftrightarrow>
     length (bkts s') = length (bkts s) \<and>
     (\<forall>b < length (bkts s).
        elems (bkts s' ! b) = elems (bkts s ! b) @ X b \<and> wf_arr (bkts s' ! b) \<and>
        unat (da_size (bkts s' ! b)) = unat (da_size (bkts s ! b)) + length (X b)) \<and>
     frame_eq s s'"

definition cnt :: "update_fn \<Rightarrow> size_t list \<Rightarrow> nat \<Rightarrow> nat" where
  "cnt f js b = length (added f js b)"

definition blk :: "size_t \<Rightarrow> size_t \<Rightarrow> size_t \<Rightarrow> size_t list" where
  "blk k bsz i = range_sz (i * bsz) (min (i * bsz + bsz) k)"

definition bcnt :: "update_fn \<Rightarrow> size_t \<Rightarrow> size_t \<Rightarrow> nat \<Rightarrow> nat \<Rightarrow> nat" where
  "bcnt f k bsz i b = cnt f (blk k bsz (of_nat i)) b"

definition psum :: "(nat \<Rightarrow> nat \<Rightarrow> nat) \<Rightarrow> nat \<Rightarrow> nat \<Rightarrow> nat" where
  "psum C B j = (\<Sum>i < j. C (i mod B) (i div B))"

definition offs :: "(nat \<Rightarrow> nat \<Rightarrow> nat) \<Rightarrow> nat \<Rightarrow> nat \<Rightarrow> nat" where
  "offs C i b = (\<Sum>i' < i. C i' b)"

text \<open>writing a list into a buffer\<close>

definition write_at :: "nat \<Rightarrow> 'a list \<Rightarrow> 'a list \<Rightarrow> 'a list" where
  "write_at p xs A = take p A @ xs @ drop (p + length xs) A"

definition cad :: "size_t \<Rightarrow> size_t \<Rightarrow> uintE \<Rightarrow> nat" where
  "cad nb i b = unat ((ucast b * nb + i) * CACHE_LINE_S)"

subsection \<open>Range arithmetic and bucket destinations\<close>

definition ex_state :: buckets where
  "ex_state =
     \<lparr>order = increasing,
      bkts = [\<lparr>da_A = [0, 0], da_size = 0\<rparr>, \<lparr>da_A = [1, 0], da_size = 1\<rparr>,
              \<lparr>da_A = [2, 0], da_size = 1\<rparr>, empty_arr],
      cur_bkt = 0, max_bkt = 4, cur_range = 0, d_b = (\<lambda>i. i), n_b = 3, num_elms = 2,
      open_buckets = 3, total_buckets = 4, allocated = True\<rparr>"

text \<open>The structure that \<open>make_buckets 1 (\<lambda>i. 0) increasing (2^32)\<close> builds: \<open>2^32\<close> slots,
  \<open>open_buckets = 2^32 - 1\<close>, identifier \<open>0\<close> in slot \<open>0\<close>.\<close>

definition full_width_state :: buckets where
  "full_width_state =
     \<lparr>order = increasing,
      bkts = (replicate 4294967296 empty_arr)[0 := \<lparr>da_A = [0, 0], da_size = 1\<rparr>],
      cur_bkt = 0, max_bkt = 4294967296, cur_range = 0, d_b = (\<lambda>i. 0), n_b = 1, num_elms = 1,
      open_buckets = 4294967295, total_buckets = 4294967296, allocated = True\<rparr>"

definition update_pre :: "update_fn \<Rightarrow> size_t \<Rightarrow> buckets \<Rightarrow> bool" where
  "update_pre f k s \<longleftrightarrow>
     unat k < 4294967296 \<and>
     length (bkts s) = unat (total_buckets s) \<and>
     unat (total_buckets s) \<le> 4294967296 \<and>
     (\<forall>a \<in> set (bkts s). wf_arr a \<and> unat (da_size a) + unat k \<le> 2147483648) \<and>
     (\<forall>vb \<in> set (batch f (range_sz 0 k)). unat (snd vb) < length (bkts s))"


definition same_shape :: "buckets \<Rightarrow> buckets \<Rightarrow> bool" where
  "same_shape s s' \<longleftrightarrow> frame_eq s s' \<and> length (bkts s') = length (bkts s)"

definition unpack_prep :: "buckets \<Rightarrow> buckets" where
  "unpack_prep s =
     s\<lparr>cur_range := (if order s = increasing then cur_range s + 1 else cur_range s - 1),
       bkts := (bkts s)[unat (open_buckets s) :=
                         (bkts s ! unat (open_buckets s))\<lparr>da_size := 0\<rparr>]\<rparr>"

definition unpack_g :: "buckets \<Rightarrow> update_fn" where
  "unpack_g s = (\<lambda>i. let v = elems (bkts s ! unat (open_buckets s)) ! unat (ucast i :: uintE)
                     in Some (v, to_range (unpack_prep s) (d_b s v)))"

definition scan_post :: "buckets \<Rightarrow> error + buckets \<Rightarrow> bool" where
  "scan_post s r =
     (case r of Inl e \<Rightarrow> True
      | Inr s1 \<Rightarrow> d_b s1 = d_b s \<and> order s1 = order s \<and> open_buckets s1 = open_buckets s \<and>
          total_buckets s1 = total_buckets s \<and> length (bkts s1) = length (bkts s) \<and>
          unat (cur_bkt s1) < length (bkts s1) \<and>
          (curBucketNonEmpty s1 \<or> num_elms s1 = 0))"

definition emitted_from :: "buckets \<Rightarrow> buckets \<Rightarrow> bucket \<Rightarrow> buckets \<Rightarrow> bool" where
  "emitted_from s s1 b s' \<longleftrightarrow>
     d_b s1 = d_b s \<and> order s1 = order s \<and> open_buckets s1 = open_buckets s \<and>
     total_buckets s1 = total_buckets s \<and> length (bkts s1) = length (bkts s) \<and>
     unat (cur_bkt s1) < length (bkts s1) \<and> curBucketNonEmpty s1 \<and> num_elms s1 \<noteq> 0 \<and>
     drain s1 = (b, s') \<and> identifiers b \<noteq> []"

definition emit_post :: "buckets \<Rightarrow> error + bucket \<times> buckets \<Rightarrow> bool" where
  "emit_post s r =
     (case r of Inl e \<Rightarrow> True
      | Inr (b, s') \<Rightarrow>
          (b = sentinel \<and> num_elms s' = 0 \<and> d_b s' = d_b s) \<or> (\<exists>s1. emitted_from s s1 b s'))"

definition ex_rt :: runtime where
  "ex_rt = \<lparr>nworkers = 4, kSequentialForThreshold = 2048\<rparr>"

subsection \<open>A batch beyond the counters' width\<close>


definition all_to_first :: update_fn where
  "all_to_first i = Some (0, 0)"

subsection \<open>The overflow-and-unpack scenario\<close>

text \<open>A runtime in which batches of at most five entries take the sequential path.\<close>

definition small_batches :: "runtime \<Rightarrow> bool" where
  "small_batches rt \<longleftrightarrow> 5 < kSequentialForThreshold rt \<or> nworkers rt = 1"

text \<open>\<open>run_next k\<close> calls \<open>next_bucket\<close> \<open>k\<close> times and lists, for every call, the returned
  bucket number and identifiers together with the slots and \<open>cur_range\<close> after the call.\<close>

fun run_next ::
  "nat \<Rightarrow> runtime \<Rightarrow> buckets \<Rightarrow> (size_t \<times> uintE list \<times> uintE list list \<times> size_t) list option" where
  "run_next 0 rt s = Some []"
| "run_next (Suc k) rt s =
     (case next_bucket rt s of
        Some (Inr (b, s')) \<Rightarrow>
          map_option ((#) (bkt_id b, identifiers b, map elems (bkts s'), cur_range s'))
                     (run_next k rt s')
      | _ \<Rightarrow> None)"

text \<open>The oracle \<open>D = [0, 1, 2, 3, 4]\<close>.\<close>

definition D8 :: "uintE \<Rightarrow> uintE" where
  "D8 i = i"

lemma unat_uintE_less: "unat (x :: uintE) < 4294967296"
  using unsigned_less [of x, where ?'a = nat] by simp

lemma unat_size_t_less: "unat (x :: size_t) < 18446744073709551616"
  using unsigned_less [of x, where ?'a = nat] by simp

lemma unat_add_sz:
  "unat (a :: size_t) + unat b < 18446744073709551616 \<Longrightarrow> unat (a + b) = unat a + unat b"
  using unat_add_lem [of a b] by simp

lemma batch_Nil [simp]: "batch f [] = []"
  by (simp add: batch_def map_filter_simps)

lemma batch_Cons:
  "batch f (j # js) = (case dest_of f j of None \<Rightarrow> batch f js | Some vb \<Rightarrow> vb # batch f js)"
  by (simp add: batch_def map_filter_simps split: option.splits)

lemma batch_append [simp]: "batch f (xs @ ys) = batch f xs @ batch f ys"
  by (simp add: batch_def map_filter_def)

lemma added_Nil [simp]: "added f [] b = []"
  by (simp add: added_def)

lemma added_append [simp]: "added f (xs @ ys) b = added f xs b @ added f ys b"
  by (simp add: added_def)

lemma elems_resize [simp]: "wf_arr a \<Longrightarrow> elems (resize n a) = elems a"
  by (simp add: elems_def resize_def wf_arr_def)

lemma da_size_resize [simp]: "da_size (resize n a) = da_size a"
  by (simp add: resize_def)

lemma length_resize: "unat (da_size a) + unat n \<le> length (da_A (resize n a))"
  by (simp add: resize_def)

lemma length_resize_mono: "length (da_A a) \<le> length (da_A (resize n a))"
  by (simp add: resize_def)

lemma wf_arr_resize: "wf_arr a \<Longrightarrow> wf_arr (resize n a)"
  using length_resize_mono [of a n] by (simp add: wf_arr_def)

lemma narrow_small:
  assumes "unat (x :: size_t) < 2147483648"
  shows "sint (ucast x :: intT) = int (unat x)"
proof -
  have "x < 2147483648" using assms by (simp add: word_less_nat_alt)
  then have "uint x < uint (2147483648 :: size_t)" by (simp only: word_less_def)
  then have u: "uint x < 2147483648" by simp
  have u0: "0 \<le> uint x" by simp
  have a: "uint (ucast x :: intT) = uint x"
    using u u0 by (simp add: unsigned_ucast_eq take_bit_int_eq_self)
  have "sint (ucast x :: intT) = signed_take_bit 31 (uint (ucast x :: intT))"
    by (simp add: sint_uint)
  also have "\<dots> = uint x"
  proof -
    have "(- (2 ^ 31) :: int) \<le> 0" by simp
    then have "- (2 ^ 31) \<le> uint x" using u0 by (rule order_trans)
    moreover have "uint x < 2 ^ 31" using u by simp
    ultimately show ?thesis unfolding a by (rule signed_take_bit_int_eq_self)
  qed
  finally show ?thesis by simp
qed

lemma push_arr_elems:
  assumes "wf_arr a" "unat (da_size a) < 2147483648"
  shows "elems (push_arr v a) = elems a @ [v]" "wf_arr (push_arr v a)"
    "unat (da_size (push_arr v a)) = unat (da_size a) + 1"
proof -
  let ?a1 = "resize 1 a"
  have ix: "nat (sint (ucast (da_size a) :: intT)) = unat (da_size a)"
    using narrow_small [OF assms(2)] by simp
  have sz: "unat (da_size a + 1) = unat (da_size a) + 1"
    using assms(2) unat_add_sz [of "da_size a" 1] by simp
  have cap: "unat (da_size a) + 1 \<le> length (da_A ?a1)"
    using length_resize [of a 1] by simp
  have pre: "take (unat (da_size a)) (da_A ?a1) = elems a"
    using elems_resize [of a 1] assms(1) by (simp add: elems_def)
  show "unat (da_size (push_arr v a)) = unat (da_size a) + 1"
    by (simp add: push_arr_def Let_def sz)
  show "wf_arr (push_arr v a)"
    using cap by (simp add: wf_arr_def push_arr_def Let_def sz)
  have "take (unat (da_size a) + 1) ((da_A ?a1)[unat (da_size a) := v])
        = take (unat (da_size a)) (da_A ?a1) @ [v]"
    using cap by (simp add: take_Suc_conv_app_nth)
  then show "elems (push_arr v a) = elems a @ [v]"
    using pre by (simp add: elems_def push_arr_def Let_def sz ix)
qed

lemma update_seq_step_eq:
  "update_seq_step f i s =
     (case dest_of f i of
        None \<Rightarrow> Inr s
      | Some (v, b) \<Rightarrow>
          if unat b < length (bkts s)
          then (if sint (ucast (da_size (bkts s ! unat b)) :: intT) < 0 then Inl OutOfBounds
                else Inr (s\<lparr>bkts := (bkts s)[unat b := push_arr v (bkts s ! unat b)],
                            num_elms := num_elms s + 1\<rparr>))
          else Inl OutOfBounds)"
  by (auto simp: update_seq_step_def dest_of_def insert_in_bucket_def push_arr_def Let_def
           split: option.splits prod.splits)

lemma frame_eq_refl [simp]: "frame_eq s s"
  by (simp add: frame_eq_def)

lemma frame_eq_trans: "frame_eq s s1 \<Longrightarrow> frame_eq s1 s2 \<Longrightarrow> frame_eq s s2"
  by (simp add: frame_eq_def)

lemma frame_eq_upd [simp]:
  "frame_eq s (s'\<lparr>bkts := bs\<rparr>) = frame_eq s s'"
  "frame_eq s (s'\<lparr>num_elms := ne\<rparr>) = frame_eq s s'"
  "frame_eq (s\<lparr>bkts := bs\<rparr>) s' = frame_eq s s'"
  "frame_eq (s\<lparr>num_elms := ne\<rparr>) s' = frame_eq s s'"
  by (simp_all add: frame_eq_def)

lemma added_Cons:
  "added f (j # js) b =
     (case dest_of f j of None \<Rightarrow> added f js b
      | Some vb \<Rightarrow> if unat (snd vb) = b then fst vb # added f js b else added f js b)"
  by (simp add: added_def batch_Cons split: option.splits)

lemma seq_loop_effect:
  assumes "\<forall>b < length (bkts s). wf_arr (bkts s ! b)"
    and "\<forall>vb \<in> set (batch f js). unat (snd vb) < length (bkts s)"
    and "\<forall>b < length (bkts s).
           unat (da_size (bkts s ! b)) + length (added f js b) \<le> 2147483648"
  shows "\<exists>s'. for_loop js (update_seq_step f) s = Inr s' \<and>
               slots_extend (added f js) s s' \<and>
               num_elms s' = num_elms s + of_nat (length (batch f js))"
  using assms
proof (induction js arbitrary: s)
  case Nil
  show ?case
    by (rule exI [of _ s]) (use Nil in \<open>simp add: slots_extend_def\<close>)
next
  case (Cons j js)
  show ?case
  proof (cases "dest_of f j")
    case None
    have b: "batch f (j # js) = batch f js" using None by (simp add: batch_Cons)
    have a: "\<And>b. added f (j # js) b = added f js b" using None by (simp add: added_Cons)
    from Cons.IH [of s] Cons.prems obtain s' where
      "for_loop js (update_seq_step f) s = Inr s'" "slots_extend (added f js) s s'"
      "num_elms s' = num_elms s + of_nat (length (batch f js))"
      unfolding a b by blast
    moreover have "update_seq_step f j s = Inr s"
      using None by (simp add: update_seq_step_eq [of f j s])
    ultimately show ?thesis
      unfolding a b by (intro exI [of _ s']) simp
  next
    case (Some vb)
    obtain v b where vb: "vb = (v, b)" by (cases vb)
    let ?n = "length (bkts s)"
    have bt: "batch f (j # js) = (v, b) # batch f js" using Some vb by (simp add: batch_Cons)
    have ad: "\<And>c. added f (j # js) c = (if unat b = c then v # added f js c else added f js c)"
      using Some vb by (simp add: added_Cons)
    have bn: "unat b < ?n" using Cons.prems(2) bt by simp
    let ?a = "bkts s ! unat b"
    have wfa: "wf_arr ?a" using Cons.prems(1) bn by simp
    have sza: "unat (da_size ?a) < 2147483648"
      using Cons.prems(3) bn ad by fastforce
    have nn: "\<not> sint (ucast (da_size ?a) :: intT) < 0"
      using narrow_small [OF sza] by simp
    note pa = push_arr_elems [OF wfa sza, of v]
    let ?s1 = "s\<lparr>bkts := (bkts s)[unat b := push_arr v ?a], num_elms := num_elms s + 1\<rparr>"
    have step: "update_seq_step f j s = Inr ?s1"
      using Some vb bn nn by (simp add: update_seq_step_eq [of f j s])
    have len1: "length (bkts ?s1) = ?n" by simp
    have p1: "\<forall>c < length (bkts ?s1). wf_arr (bkts ?s1 ! c)"
      using Cons.prems(1) pa(2) bn by (simp add: nth_list_update)
    have p2: "\<forall>vb \<in> set (batch f js). unat (snd vb) < length (bkts ?s1)"
      using Cons.prems(2) bt by simp
    have p3: "\<forall>c < length (bkts ?s1).
           unat (da_size (bkts ?s1 ! c)) + length (added f js c) \<le> 2147483648"
    proof (intro allI impI)
      fix c assume c: "c < length (bkts ?s1)"
      then have c': "c < ?n" by simp
      from Cons.prems(3) c'
      have h: "unat (da_size (bkts s ! c)) + length (added f (j # js) c) \<le> 2147483648"
        by blast
      show "unat (da_size (bkts ?s1 ! c)) + length (added f js c) \<le> 2147483648"
      proof (cases "c = unat b")
        case True
        then show ?thesis using h pa(3) bn by (simp add: ad)
      next
        case False
        then show ?thesis using h c' by (simp add: ad nth_list_update)
      qed
    qed
    from Cons.IH [OF p1 p2 p3] obtain s' where
      run: "for_loop js (update_seq_step f) ?s1 = Inr s'"
      and ext: "slots_extend (added f js) ?s1 s'"
      and ne: "num_elms s' = num_elms ?s1 + of_nat (length (batch f js))"
      by blast
    have r: "for_loop (j # js) (update_seq_step f) s = Inr s'"
      using step run by simp
    have n: "num_elms s' = num_elms s + of_nat (length (batch f (j # js)))"
      using ne by (simp add: bt)
    have e: "slots_extend (added f (j # js)) s s'"
      unfolding slots_extend_def
    proof (intro conjI allI impI)
      show "length (bkts s') = length (bkts s)" using ext by (simp add: slots_extend_def)
    next
      fix c assume c: "c < length (bkts s)"
      from ext c have h1: "elems (bkts s' ! c) = elems (bkts ?s1 ! c) @ added f js c"
        and h2: "wf_arr (bkts s' ! c)"
        and h3: "unat (da_size (bkts s' ! c)) = unat (da_size (bkts ?s1 ! c)) + length (added f js c)"
        by (simp_all add: slots_extend_def)
      show "elems (bkts s' ! c) = elems (bkts s ! c) @ added f (j # js) c"
        using h1 c pa(1) by (cases "c = unat b") (simp_all add: ad nth_list_update)
      show "wf_arr (bkts s' ! c)" by (rule h2)
      show "unat (da_size (bkts s' ! c)) = unat (da_size (bkts s ! c)) + length (added f (j # js) c)"
        using h3 c pa(3) by (cases "c = unat b") (simp_all add: ad nth_list_update)
    next
      from ext show "frame_eq s s'"
        by (simp add: slots_extend_def)
    qed
    show ?thesis using r n e by blast
  qed
qed

lemma unat_of_nat_sz: "n < 18446744073709551616 \<Longrightarrow> unat (of_nat n :: size_t) = n"
  by (simp add: unat_of_nat)

lemma unat_of_nat_uintE: "n < 4294967296 \<Longrightarrow> unat (of_nat n :: uintE) = n"
  by (simp add: unat_of_nat)

lemma range_sz_nat: "range_sz 0 k = map of_nat [0..<unat k]"
  by (simp add: range_sz_def)

lemma cnt_Nil [simp]: "cnt f [] b = 0" by (simp add: cnt_def)

lemma cnt_append [simp]: "cnt f (xs @ ys) b = cnt f xs b + cnt f ys b" by (simp add: cnt_def)

text \<open>Step 1, inner loop: histogram increments by address.\<close>

lemma hist_item_eq:
  "hist_item f nslots base j h =
     (case dest_of f j of
        None \<Rightarrow> Inr h
      | Some (v, b) \<Rightarrow>
          if unat b < nslots
          then Inr (h(unat (base + ucast b) := h (unat (base + ucast b)) + 1))
          else Inl OutOfBounds)"
  by (auto simp: hist_item_def dest_of_def split: option.splits prod.splits)

lemma hist_loop:
  assumes "\<forall>vb \<in> set (batch f js). unat (snd vb) < nslots"
  shows "for_loop js (hist_item f nslots base) h =
         Inr (\<lambda>x. h x + of_nat (length (filter (\<lambda>vb. unat (base + ucast (snd vb)) = x) (batch f js))))"
  using assms
proof (induction js arbitrary: h)
  case Nil
  then show ?case by simp
next
  case (Cons j js)
  show ?case
  proof (cases "dest_of f j")
    case None
    then have b: "batch f (j # js) = batch f js" by (simp add: batch_Cons)
    have "hist_item f nslots base j h = Inr h"
      using None by (simp add: hist_item_eq [of f nslots base j h])
    then show ?thesis using Cons.IH [of h] Cons.prems unfolding b by simp
  next
    case (Some vb)
    obtain v b where vb: "vb = (v, b)" by (cases vb)
    have bt: "batch f (j # js) = (v, b) # batch f js" using Some vb by (simp add: batch_Cons)
    have bn: "unat b < nslots" using Cons.prems bt by simp
    let ?h1 = "h(unat (base + ucast b) := h (unat (base + ucast b)) + 1)"
    have st: "hist_item f nslots base j h = Inr ?h1"
      using Some vb bn by (simp add: hist_item_eq [of f nslots base j h])
    have p: "\<forall>vb \<in> set (batch f js). unat (snd vb) < nslots" using Cons.prems bt by simp
    have eq: "(\<lambda>x. ?h1 x + of_nat (length (filter (\<lambda>vb. unat (base + ucast (snd vb)) = x) (batch f js))))
        = (\<lambda>x. h x + of_nat (length (filter (\<lambda>vb. unat (base + ucast (snd vb)) = x) (batch f (j # js)))))"
      unfolding bt by (rule ext) simp
    have "for_loop (j # js) (hist_item f nslots base) h = for_loop js (hist_item f nslots base) ?h1"
      using st by simp
    then show ?thesis
      using Cons.IH [OF p, of ?h1] eq by (simp only:)
  qed
qed

lemma unat_lin2:
  "a * b + c < 18446744073709551616 \<Longrightarrow>
   unat ((of_nat a :: size_t) * of_nat b + of_nat c) = a * b + c"
  by (metis of_nat_add of_nat_mult unat_of_nat_sz)

lemma unat_lin2_64:
  "(a * b + c) * 64 < 18446744073709551616 \<Longrightarrow>
   unat (((of_nat a :: size_t) * of_nat b + of_nat c) * 64) = (a * b + c) * 64"
  by (metis of_nat_add of_nat_mult of_nat_numeral unat_of_nat_sz)

lemma ucast_uintE_of_nat: "(ucast (b :: uintE) :: size_t) = of_nat (unat b)"
  by simp

lemma mult_bound:
  "(a::nat) \<le> A \<Longrightarrow> b \<le> B \<Longrightarrow> a * b \<le> A * B"
  by (rule mult_le_mono)

lemma fold_upd_const:
  "fold (\<lambda>j h. h(g j := c)) js h = (\<lambda>x. if x \<in> g ` set js then c else h x)"
  by (induction js arbitrary: h) (auto simp: fun_eq_iff)

lemma set_range_sz0: "set (range_sz 0 k) = of_nat ` {0..<unat k}"
  by (simp add: range_sz_def)

lemma hist_block_alt:
  "hist_block f k bsz tb nslots i h =
     for_loop (blk k bsz i) (hist_item f nslots (i * tb))
       (fold (\<lambda>j h. h(unat (i * tb + j) := 0)) (range_sz 0 tb) h)"
  by (simp add: hist_block_def blk_def Let_def)

lemma clear_cells:
  assumes "i * unat tb + unat tb < 18446744073709551616"
  shows "fold (\<lambda>j h. h(unat ((of_nat i :: size_t) * tb + j) := c)) (range_sz 0 tb) h
       = (\<lambda>x. if i * unat tb \<le> x \<and> x < i * unat tb + unat tb then c else h x)"
proof -
  let ?T = "unat tb"
  have ad: "unat ((of_nat i :: size_t) * tb + of_nat j) = i * ?T + j" if "j < ?T" for j
  proof -
    have "i * ?T + j < 18446744073709551616" using assms that by simp
    from unat_lin2 [OF this] show ?thesis by simp
  qed
  have "(\<lambda>j. unat ((of_nat i :: size_t) * tb + j)) ` set (range_sz 0 tb)
        = (\<lambda>j. unat ((of_nat i :: size_t) * tb + of_nat j)) ` {0..<?T}"
    by (simp add: set_range_sz0 image_image)
  also have "\<dots> = (\<lambda>j. i * ?T + j) ` {0..<?T}"
    by (rule image_cong) (simp_all add: ad)
  also have "\<dots> = {x. i * ?T \<le> x \<and> x < i * ?T + ?T}"
  proof (intro set_eqI iffI)
    fix x assume "x \<in> {x. i * ?T \<le> x \<and> x < i * ?T + ?T}"
    then have "x = i * ?T + (x - i * ?T)" "x - i * ?T \<in> {0..<?T}" by auto
    then show "x \<in> (\<lambda>j. i * ?T + j) ` {0..<?T}" by blast
  qed auto
  finally show ?thesis
    by (simp add: fold_upd_const)
qed

lemma hist_block_eff:
  assumes bound: "i * unat tb + unat tb < 18446744073709551616"
    and dests: "\<forall>vb \<in> set (batch f (blk k bsz (of_nat i))). unat (snd vb) < unat tb"
  shows "hist_block f k bsz tb (unat tb) (of_nat i) h =
         Inr (\<lambda>x. if i * unat tb \<le> x \<and> x < i * unat tb + unat tb
                  then of_nat (cnt f (blk k bsz (of_nat i)) (x - i * unat tb))
                  else h x)"
proof -
  let ?T = "unat tb" and ?js = "blk k bsz (of_nat i)"
  let ?base = "(of_nat i :: size_t) * tb"
  have ad: "unat (?base + ucast (snd vb)) = i * ?T + unat (snd vb)"
    if "vb \<in> set (batch f ?js)" for vb
  proof -
    have "unat (snd vb) < ?T" using dests that by blast
    then have "i * ?T + unat (snd vb) < 18446744073709551616" using bound by simp
    from unat_lin2 [OF this] show ?thesis by simp
  qed
  have flt: "length (filter (\<lambda>vb. unat (?base + ucast (snd vb)) = x) (batch f ?js))
     = (if i * ?T \<le> x \<and> x < i * ?T + ?T then cnt f ?js (x - i * ?T) else 0)" for x
  proof -
    have "filter (\<lambda>vb. unat (?base + ucast (snd vb)) = x) (batch f ?js)
        = filter (\<lambda>vb. i * ?T + unat (snd vb) = x) (batch f ?js)"
      by (rule filter_cong) (simp_all add: ad)
    also have "\<dots> = (if i * ?T \<le> x \<and> x < i * ?T + ?T
                     then filter (\<lambda>vb. unat (snd vb) = x - i * ?T) (batch f ?js) else [])"
    proof (cases "i * ?T \<le> x \<and> x < i * ?T + ?T")
      case True
      then have "filter (\<lambda>vb. i * ?T + unat (snd vb) = x) (batch f ?js)
           = filter (\<lambda>vb. unat (snd vb) = x - i * ?T) (batch f ?js)"
        by (intro filter_cong) auto
      then show ?thesis using True by simp
    next
      case False
      have "filter (\<lambda>vb. i * ?T + unat (snd vb) = x) (batch f ?js) = []"
        using False dests by (auto simp: filter_empty_conv)
      then show ?thesis using False by auto
    qed
    finally show ?thesis by (simp add: cnt_def added_def)
  qed
  show ?thesis
    unfolding hist_block_alt hist_loop [OF dests] clear_cells [OF bound] flt
    by (auto simp: fun_eq_iff)
qed

lemma for_loop_append:
  "for_loop (xs @ ys) body s =
     (case for_loop xs body s of Inl e \<Rightarrow> Inl e | Inr s' \<Rightarrow> for_loop ys body s')"
  by (induction xs arbitrary: s) (auto split: sum.splits)

lemma div_mod_block:
  assumes "n * T \<le> x" "x < n * T + (T::nat)"
  shows "x div T = n" "x mod T = x - n * T"
proof -
  have Tpos: "0 < T" using assms by (cases T) auto
  let ?r = "x - n * T"
  have x: "x = n * T + ?r" "?r < T" using assms by auto
  have "x div T = (?r + n * T) div T" using x(1) by (simp add: add.commute)
  also have "\<dots> = n" using x(2) Tpos by simp
  finally show "x div T = n" .
  have "x mod T = (?r + n * T) mod T" using x(1) by (simp add: add.commute)
  also have "\<dots> = ?r" using x(2) by simp
  finally show "x mod T = x - n * T" .
qed

lemma hist_all:
  assumes bound: "B * unat tb + unat tb < 18446744073709551616"
    and dests: "\<forall>i < B. \<forall>vb \<in> set (batch f (blk k bsz (of_nat i))). unat (snd vb) < unat tb"
    and n: "n \<le> B"
  shows "for_loop (map of_nat [0..<n]) (hist_block f k bsz tb (unat tb)) h =
         Inr (\<lambda>x. if x < n * unat tb
                  then of_nat (cnt f (blk k bsz (of_nat (x div unat tb))) (x mod unat tb))
                  else h x)"
  using n
proof (induction n)
  case 0
  show ?case by simp
next
  case (Suc n)
  let ?T = "unat tb"
  let ?hn = "\<lambda>x. if x < n * ?T
                  then of_nat (cnt f (blk k bsz (of_nat (x div ?T))) (x mod ?T))
                  else h x"
  have nB: "n < B" using Suc.prems by simp
  have run: "for_loop (map of_nat [0..<n]) (hist_block f k bsz tb ?T) h = Inr ?hn"
    using Suc.IH nB by simp
  have "n * ?T \<le> B * ?T" using nB by simp
  then have b1: "n * ?T + ?T < 18446744073709551616" using bound by linarith
  have d1: "\<forall>vb \<in> set (batch f (blk k bsz (of_nat n))). unat (snd vb) < ?T"
    using dests nB by blast
  note hb = hist_block_eff [OF b1 d1, of ?hn]
  have eq: "(\<lambda>x. if n * ?T \<le> x \<and> x < n * ?T + ?T
                  then of_nat (cnt f (blk k bsz (of_nat n)) (x - n * ?T))
                  else ?hn x)
          = (\<lambda>x. if x < Suc n * ?T
                  then of_nat (cnt f (blk k bsz (of_nat (x div ?T))) (x mod ?T))
                  else h x)"
  proof (rule ext)
    fix x
    show "(if n * ?T \<le> x \<and> x < n * ?T + ?T
                  then of_nat (cnt f (blk k bsz (of_nat n)) (x - n * ?T))
                  else ?hn x)
          = (if x < Suc n * ?T
                  then of_nat (cnt f (blk k bsz (of_nat (x div ?T))) (x mod ?T))
                  else h x)"
    proof (cases "n * ?T \<le> x \<and> x < n * ?T + ?T")
      case True
      then have "x div ?T = n" "x mod ?T = x - n * ?T"
        using div_mod_block [of n ?T x] by simp_all
      then show ?thesis using True by simp
    next
      case False
      then show ?thesis by auto
    qed
  qed
  have "for_loop (map of_nat [0..<Suc n]) (hist_block f k bsz tb ?T) h
        = hist_block f k bsz tb ?T (of_nat n) ?hn"
    using run by (simp add: for_loop_append split: sum.splits)
  then show ?case using hb eq by (simp only:)
qed

lemma scan_add_of_nat:
  "(\<forall>i < j. g i = of_nat (c i)) \<Longrightarrow> scan_add g j = of_nat (\<Sum>i < j. c i)"
  by (induction j) simp_all

lemma word_mod_of_nat:
  "i < 18446744073709551616 \<Longrightarrow> (of_nat i :: size_t) mod nb = of_nat (i mod unat nb)"
proof -
  assume i: "i < 18446744073709551616"
  have "i mod unat nb \<le> i" by simp
  then have "i mod unat nb < 18446744073709551616" using i by linarith
  then show ?thesis
    using i by (simp add: word_unat_eq_iff unat_mod unat_of_nat_sz)
qed

lemma word_div_of_nat:
  "i < 18446744073709551616 \<Longrightarrow> (of_nat i :: size_t) div nb = of_nat (i div unat nb)"
proof -
  assume i: "i < 18446744073709551616"
  have "i div unat nb \<le> i" by simp
  then have "i div unat nb < 18446744073709551616" using i by linarith
  then show ?thesis
    using i by (simp add: word_unat_eq_iff unat_div unat_of_nat_sz)
qed

lemma cell_bound:
  assumes "0 < (B::nat)" "i < B * T"
  shows "(i mod B) * T + i div B < B * T"
proof -
  have d: "i div B < T" using assms by (simp add: less_mult_imp_div_less mult.commute)
  have m: "i mod B < B" using assms by simp
  then have "Suc (i mod B) \<le> B" by simp
  then have "Suc (i mod B) * T \<le> B * T" by (rule mult_le_mono1)
  then show ?thesis using d by simp
qed

lemma hist_get_cell:
  assumes B: "0 < unat nb"
    and bound: "unat nb * unat tb < 18446744073709551616"
    and i: "i < unat nb * unat tb"
    and H: "\<And>x. x < unat nb * unat tb \<Longrightarrow> H x = of_nat (C (x div unat tb) (x mod unat tb))"
  shows "hist_get H nb tb (of_nat i) = of_nat (C (i mod unat nb) (i div unat nb))"
proof -
  let ?B = "unat nb" and ?T = "unat tb"
  have i64: "i < 18446744073709551616" using i bound by linarith
  have d: "i div ?B < ?T" using i B by (simp add: less_mult_imp_div_less mult.commute)
  have cb: "(i mod ?B) * ?T + i div ?B < ?B * ?T" by (rule cell_bound [OF B i])
  then have cb64: "(i mod ?B) * ?T + i div ?B < 18446744073709551616" using bound by linarith
  have ad: "unat ((of_nat i :: size_t) mod nb * tb + of_nat i div nb) = (i mod ?B) * ?T + i div ?B"
    using unat_lin2 [OF cb64] by (simp add: word_mod_of_nat [OF i64] word_div_of_nat [OF i64])
  have dm: "((i mod ?B) * ?T + i div ?B) div ?T = i mod ?B"
           "((i mod ?B) * ?T + i div ?B) mod ?T = i div ?B"
    using div_mod_block [of "i mod ?B" ?T "(i mod ?B) * ?T + i div ?B"] d by simp_all
  have "H ((i mod ?B) * ?T + i div ?B) = of_nat (C (i mod ?B) (i div ?B))"
    using H [OF cb] unfolding dm .
  then show ?thesis
    by (simp only: hist_get_def Let_def ad)
qed

lemma make_outs_psum:
  assumes B: "0 < unat nb"
    and bound: "unat nb * unat tb < 18446744073709551616"
    and H: "\<And>x. x < unat nb * unat tb \<Longrightarrow> H x = of_nat (C (x div unat tb) (x mod unat tb))"
    and j: "j \<le> unat nb * unat tb"
  shows "make_outs H nb tb j = of_nat (psum C (unat nb) j)"
proof -
  have u: "unat (nb * tb) = unat nb * unat tb"
    using bound unat_mult_lem [of nb tb] by simp
  have "\<forall>i < j. hist_get H nb tb (of_nat i) = of_nat (C (i mod unat nb) (i div unat nb))"
  proof (intro allI impI)
    fix i assume "i < j"
    then have "i < unat nb * unat tb" using j by simp
    then show "hist_get H nb tb (of_nat i) = of_nat (C (i mod unat nb) (i div unat nb))"
      using H by (intro hist_get_cell [where C = C and H = H, OF B bound]) simp_all
  qed
  from scan_add_of_nat [OF this] show ?thesis
    using j by (simp add: make_outs_def u psum_def)
qed

lemma psum_block:
  assumes "0 < B" "i \<le> B"
  shows "psum C B (b * B + i) = psum C B (b * B) + offs C i b"
  using assms(2)
proof (induction i)
  case 0
  show ?case by (simp add: offs_def)
next
  case (Suc i)
  then have iB: "i < B" by simp
  have "(b * B + i) mod B = i" "(b * B + i) div B = b" using iB by simp_all
  then have "psum C B (b * B + Suc i) = psum C B (b * B + i) + C i b"
    by (simp add: psum_def)
  then show ?case using Suc.IH iB by (simp add: offs_def)
qed

lemma psum_mono: "j \<le> j' \<Longrightarrow> psum C B j \<le> psum C B j'"
  unfolding psum_def by (rule sum_mono2) auto

lemma offs_mono: "i \<le> i' \<Longrightarrow> offs C i b \<le> offs C i' b"
  unfolding offs_def by (rule sum_mono2) auto

lemma psum_total:
  assumes "0 < B"
  shows "psum C B (T * B) = (\<Sum>b < T. offs C B b)"
proof (induction T)
  case 0
  show ?case by (simp add: psum_def)
next
  case (Suc T)
  have "psum C B (Suc T * B) = psum C B (T * B + B)" by (simp add: add.commute)
  also have "\<dots> = psum C B (T * B) + offs C B T"
    by (rule psum_block [OF assms]) simp
  finally show ?case using Suc.IH by simp
qed

lemma cnt_concat: "cnt f (concat (map g [0..<n])) b = (\<Sum>i < n. cnt f (g i) b)"
  by (induction n) simp_all

lemma upt_tiling:
  "concat (map (\<lambda>i. [i * bs ..< min (i * bs + bs) K]) [0..<n]) = [0..<min (n * bs) K]"
proof (induction n)
  case 0
  show ?case by simp
next
  case (Suc n)
  show ?case
  proof (cases "n * bs \<le> K")
    case True
    have "[0..<n * bs] @ [n * bs ..< min (n * bs + bs) K] = [0..<min (n * bs + bs) K]"
      using True upt_add_eq_append [of 0 "n * bs" "min (n * bs + bs) K - n * bs"] by simp
    then show ?thesis using Suc.IH True by (simp add: min_absorb1 add.commute)
  next
    case False
    then have "min (n * bs + bs) K = K" "min (n * bs) K = K" by simp_all
    then show ?thesis using Suc.IH False by (simp add: add.commute)
  qed
qed

lemma unat_min: "unat (min a b :: size_t) = min (unat a) (unat b)"
  by (simp add: min_def word_le_nat_alt)

lemma blk_nat:
  assumes "i * unat bsz + unat bsz < 18446744073709551616"
  shows "blk k bsz (of_nat i) = map of_nat [i * unat bsz ..< min (i * unat bsz + unat bsz) (unat k)]"
proof -
  have a: "unat ((of_nat i :: size_t) * bsz) = i * unat bsz"
    using unat_lin2 [of i "unat bsz" 0] assms by simp
  have b: "unat ((of_nat i :: size_t) * bsz + bsz) = i * unat bsz + unat bsz"
    using unat_lin2 [of i "unat bsz" "unat bsz"] assms by simp
  show ?thesis by (simp add: blk_def range_sz_def a b unat_min)
qed

lemma blocks_tile:
  assumes "B * unat bsz + unat bsz < 18446744073709551616" "unat k \<le> B * unat bsz"
  shows "concat (map (\<lambda>i. blk k bsz (of_nat i)) [0..<B]) = range_sz 0 k"
proof -
  have "\<And>i. i \<in> set [0..<B] \<Longrightarrow> i * unat bsz + unat bsz < 18446744073709551616"
  proof -
    fix i assume "i \<in> set [0..<B]"
    then have "i * unat bsz \<le> B * unat bsz" by simp
    then show "i * unat bsz + unat bsz < 18446744073709551616" using assms(1) by linarith
  qed
  then have "map (\<lambda>i. blk k bsz (of_nat i)) [0..<B]
      = map (\<lambda>i. map of_nat [i * unat bsz ..< min (i * unat bsz + unat bsz) (unat k)]) [0..<B]"
    by (intro map_cong refl blk_nat)
  then have "concat (map (\<lambda>i. blk k bsz (of_nat i)) [0..<B])
      = concat (map (\<lambda>i. map of_nat [i * unat bsz ..< min (i * unat bsz + unat bsz) (unat k)]) [0..<B])"
    by (simp only:)
  also have "\<dots> = map of_nat (concat (map (\<lambda>i. [i * unat bsz ..< min (i * unat bsz + unat bsz) (unat k)]) [0..<B]))"
    by (simp add: map_concat comp_def)
  also have "\<dots> = map of_nat [0..<unat k]"
    using assms(2) by (simp add: upt_tiling min_absorb2)
  finally show ?thesis by (simp add: range_sz_def)
qed

lemma block_size_nat:
  assumes "0 < unat (nb :: size_t)" "unat (k :: size_t) + unat nb < 18446744073709551616"
  shows "unat ((k + nb - 1) div nb) = (unat k + unat nb - 1) div unat nb"
    and "unat k \<le> unat nb * ((unat k + unat nb - 1) div unat nb)"
proof -
  let ?K = "unat k" and ?B = "unat nb"
  have a: "unat (k + nb) = ?K + ?B" using unat_add_sz [of k nb] assms(2) by simp
  have nz: "k + nb \<noteq> 0" using a assms(1) by (metis add_is_0 less_numeral_extra(3) unat_0)
  have "unat (k + nb - 1) = ?K + ?B - 1" using unat_minus_one [OF nz] a by simp
  then show "unat ((k + nb - 1) div nb) = (?K + ?B - 1) div ?B" by (simp add: unat_div)
  have "?K + ?B - 1 = ?B * ((?K + ?B - 1) div ?B) + (?K + ?B - 1) mod ?B" by simp
  moreover have "(?K + ?B - 1) mod ?B < ?B" using assms(1) by simp
  ultimately show "?K \<le> ?B * ((?K + ?B - 1) div ?B)" by linarith
qed

lemma unat_ucast_up: "unat (ucast (x :: uintE) :: size_t) = unat x"
proof -
  have "unat x < 2 ^ 64" using unat_uintE_less [of x] by simp
  then show ?thesis by (simp add: unsigned_ucast_eq take_bit_eq_mod)
qed

lemma ucast_of_nat_uintE:
  "n < 4294967296 \<Longrightarrow> (ucast (of_nat n :: uintE) :: size_t) = of_nat n"
  by (simp add: word_unat_eq_iff unat_ucast_up unat_of_nat)

lemma sum_filter_slots:
  assumes "\<forall>vb \<in> set xs. unat (snd vb :: uintE) < T"
  shows "(\<Sum>b < T. length (filter (\<lambda>vb. unat (snd vb) = b) xs)) = length xs"
  using assms
proof (induction xs)
  case Nil
  show ?case by simp
next
  case (Cons x xs)
  have x: "unat (snd x) < T" using Cons.prems by simp
  have "(\<Sum>b < T. length (filter (\<lambda>vb. unat (snd vb) = b) (x # xs)))
      = (\<Sum>b < T. (if unat (snd x) = b then 1 else 0) + length (filter (\<lambda>vb. unat (snd vb) = b) xs))"
    by (intro sum.cong refl) simp
  also have "\<dots> = (\<Sum>b < T. (if unat (snd x) = b then 1 else 0)) + length xs"
    using Cons by (simp add: sum.distrib)
  also have "(\<Sum>b < T. (if unat (snd x) = b then 1 else 0 :: nat)) = 1"
    using x by simp
  finally show ?case by simp
qed

lemma sum_cnt_slots:
  assumes "\<forall>vb \<in> set (batch f js). unat (snd vb) < T"
  shows "(\<Sum>b < T. cnt f js b) = length (batch f js)"
  using sum_filter_slots [OF assms] by (simp add: cnt_def added_def)

lemma length_batch_le: "length (batch f js) \<le> length js"
  by (induction js) (auto simp: batch_Cons split: option.splits)

lemma cnt_le_batch: "cnt f js b \<le> length (batch f js)"
  by (simp add: cnt_def added_def)

lemma write_at_Nil [simp]: "write_at p [] A = A"
  by (simp add: write_at_def)

lemma length_write_at: "p + length xs \<le> length A \<Longrightarrow> length (write_at p xs A) = length A"
  by (simp add: write_at_def)

lemma write_at_upd:
  assumes "p + Suc (length xs) \<le> length A"
  shows "write_at (Suc p) xs (A[p := v]) = write_at p (v # xs) A"
proof -
  have p: "p < length A" using assms by simp
  have "take (Suc p) (A[p := v]) = take p A @ [v]"
    using p by (simp add: take_Suc_conv_app_nth)
  moreover have "drop (Suc p + length xs) (A[p := v]) = drop (Suc p + length xs) A"
    by simp
  ultimately show ?thesis by (simp add: write_at_def)
qed

lemma write_at_write_at:
  assumes "p + length xs + length ys \<le> length A"
  shows "write_at (p + length xs) ys (write_at p xs A) = write_at p (xs @ ys) A"
proof -
  have lp: "p \<le> length A" using assms by simp
  have 1: "take (p + length xs) (write_at p xs A) = take p A @ xs"
    using lp by (simp add: write_at_def)
  have 2: "drop (p + length xs + length ys) (write_at p xs A) = drop (p + length xs + length ys) A"
    using assms by (simp add: write_at_def add.commute add.left_commute)
  show ?thesis
    unfolding write_at_def [of "p + length xs" ys] 1 2
    by (simp add: write_at_def add.assoc)
qed

lemma take_write_at:
  assumes "p + length xs \<le> length A"
  shows "take (p + length xs) (write_at p xs A) = take p A @ xs"
  using assms by (simp add: write_at_def)

lemma scatter_item_eq:
  "scatter_item f nb i j (h, s) =
     (case dest_of f j of
        None \<Rightarrow> Inr (h, s)
      | Some (v, b) \<Rightarrow>
          if unat b < length (bkts s)
          then Inr (h(cad nb i b := h (cad nb i b) + 1),
                    s\<lparr>bkts := (bkts s)[unat b := insert_at v (ucast (h (cad nb i b))) (bkts s ! unat b)]\<rparr>)
          else Inl OutOfBounds)"
  by (auto simp: scatter_item_def dest_of_def cad_def Let_def split: option.splits prod.splits)

lemma scatter_loop:
  assumes len: "length (bkts s) = T"
    and inj: "\<forall>b b'. unat b < T \<longrightarrow> unat b' < T \<longrightarrow> cad nb i b = cad nb i b' \<longrightarrow> b = b'"
    and dests: "\<forall>vb \<in> set (batch f js). unat (snd vb) < T"
    and room: "\<forall>b. unat b < T \<longrightarrow>
        unat (da_size (bkts s ! unat b)) + unat (h (cad nb i b)) + cnt f js (unat b)
          \<le> length (da_A (bkts s ! unat b))"
    and w32: "\<forall>b. unat b < T \<longrightarrow> unat (h (cad nb i b)) + cnt f js (unat b) < 4294967296"
    and w64: "\<forall>b. unat b < T \<longrightarrow>
        unat (da_size (bkts s ! unat b)) + unat (h (cad nb i b)) + cnt f js (unat b)
          < 18446744073709551616"
  shows "\<exists>h' s'. for_loop js (scatter_item f nb i) (h, s) = Inr (h', s') \<and>
          (\<forall>x. h' x = h x + of_nat (length (filter (\<lambda>vb. cad nb i (snd vb) = x) (batch f js)))) \<and>
          length (bkts s') = T \<and> frame_eq s s' \<and> num_elms s' = num_elms s \<and>
          (\<forall>b. unat b < T \<longrightarrow>
             da_size (bkts s' ! unat b) = da_size (bkts s ! unat b) \<and>
             da_A (bkts s' ! unat b) =
               write_at (unat (da_size (bkts s ! unat b)) + unat (h (cad nb i b)))
                        (added f js (unat b)) (da_A (bkts s ! unat b)))"
  using assms
proof (induction js arbitrary: h s)
  case Nil
  show ?case
    by (intro exI [of _ h] exI [of _ s]) (use Nil in simp)
next
  case (Cons j js)
  show ?case
  proof (cases "dest_of f j")
    case None
    have b: "batch f (j # js) = batch f js" using None by (simp add: batch_Cons)
    have a: "\<And>b. added f (j # js) b = added f js b" using None by (simp add: added_Cons)
    have c: "\<And>b. cnt f (j # js) b = cnt f js b" by (simp add: cnt_def a)
    have st: "scatter_item f nb i j (h, s) = Inr (h, s)"
      using None by (simp add: scatter_item_eq)
    have "\<exists>h' s'. for_loop js (scatter_item f nb i) (h, s) = Inr (h', s') \<and>
          (\<forall>x. h' x = h x + of_nat (length (filter (\<lambda>vb. cad nb i (snd vb) = x) (batch f js)))) \<and>
          length (bkts s') = T \<and> frame_eq s s' \<and> num_elms s' = num_elms s \<and>
          (\<forall>b. unat b < T \<longrightarrow>
             da_size (bkts s' ! unat b) = da_size (bkts s ! unat b) \<and>
             da_A (bkts s' ! unat b) =
               write_at (unat (da_size (bkts s ! unat b)) + unat (h (cad nb i b)))
                        (added f js (unat b)) (da_A (bkts s ! unat b)))"
      using Cons.prems unfolding b c by (intro Cons.IH) 
    then show ?thesis unfolding a b using st by simp
  next
    case (Some vb)
    obtain v b0 where vb: "vb = (v, b0)" by (cases vb)
    have bt: "batch f (j # js) = (v, b0) # batch f js" using Some vb by (simp add: batch_Cons)
    have ad: "\<And>c. added f (j # js) c = (if unat b0 = c then v # added f js c else added f js c)"
      using Some vb by (simp add: added_Cons)
    have cn: "\<And>c. cnt f (j # js) c = (if unat b0 = c then Suc (cnt f js c) else cnt f js c)"
      by (simp add: cnt_def ad)
    have b0T: "unat b0 < T" using Cons.prems(3) bt by simp
    let ?c0 = "cad nb i b0"
    let ?a0 = "bkts s ! unat b0"
    let ?p0 = "unat (da_size ?a0) + unat (h ?c0)"
    from Cons.prems(4) [rule_format, OF b0T] have room0: "?p0 + Suc (cnt f js (unat b0)) \<le> length (da_A ?a0)"
      by (simp add: cn)
    from Cons.prems(5) [rule_format, OF b0T] have w32_0: "unat (h ?c0) + Suc (cnt f js (unat b0)) < 4294967296"
      by (simp add: cn)
    from Cons.prems(6) [rule_format, OF b0T] have w64_0: "?p0 + Suc (cnt f js (unat b0)) < 18446744073709551616"
      by (simp add: cn)
    have up0: "unat (da_size ?a0 + ucast (h ?c0)) = ?p0"
      using w64_0 unat_add_sz [of "da_size ?a0" "ucast (h ?c0)"] by (simp add: unat_ucast_up)
    have h1c: "unat (h ?c0 + 1) = Suc (unat (h ?c0))"
      using w32_0 unat_add_lem [of "h ?c0" 1] by simp
    let ?h1 = "h(?c0 := h ?c0 + 1)"
    let ?a1 = "?a0\<lparr>da_A := (da_A ?a0)[?p0 := v]\<rparr>"
    let ?s1 = "s\<lparr>bkts := (bkts s)[unat b0 := ?a1]\<rparr>"
    have st: "scatter_item f nb i j (h, s) = Inr (?h1, ?s1)"
      using Some vb b0T Cons.prems(1) by (simp add: scatter_item_eq insert_at_def up0)
    have q1: "length (bkts ?s1) = T" using Cons.prems(1) by simp
    have q3: "\<forall>vb \<in> set (batch f js). unat (snd vb) < T" using Cons.prems(3) bt by simp
    have other: "?h1 (cad nb i b) = h (cad nb i b)" if "unat b < T" "b \<noteq> b0" for b
      using that Cons.prems(2) b0T by auto
    have nth1: "(bkts s)[unat b0 := ?a1] ! unat b = (if b = b0 then ?a1 else bkts s ! unat b)"
      if "unat b < T" for b
      using that Cons.prems(1) by (auto simp: nth_list_update word_unat_eq_iff)
    have q4: "\<forall>b. unat b < T \<longrightarrow>
        unat (da_size (bkts ?s1 ! unat b)) + unat (?h1 (cad nb i b)) + cnt f js (unat b)
          \<le> length (da_A (bkts ?s1 ! unat b))"
    proof (intro allI impI)
      fix b :: uintE assume b: "unat b < T"
      show "unat (da_size (bkts ?s1 ! unat b)) + unat (?h1 (cad nb i b)) + cnt f js (unat b)
          \<le> length (da_A (bkts ?s1 ! unat b))"
      proof (cases "b = b0")
        case True
        then show ?thesis using room0 h1c by (simp add: nth1 [OF b0T])
      next
        case False
        then have "unat b0 \<noteq> unat b" by (simp add: word_unat_eq_iff)
        then show ?thesis
          using Cons.prems(4) [rule_format, OF b] False other [OF b False] by (simp add: nth1 [OF b] cn)
      qed
    qed
    have q5: "\<forall>b. unat b < T \<longrightarrow> unat (?h1 (cad nb i b)) + cnt f js (unat b) < 4294967296"
    proof (intro allI impI)
      fix b :: uintE assume b: "unat b < T"
      show "unat (?h1 (cad nb i b)) + cnt f js (unat b) < 4294967296"
      proof (cases "b = b0")
        case True
        then show ?thesis using w32_0 h1c by simp
      next
        case False
        then have "unat b0 \<noteq> unat b" by (simp add: word_unat_eq_iff)
        then show ?thesis
          using Cons.prems(5) [rule_format, OF b] False other [OF b False] by (simp add: cn)
      qed
    qed
    have q6: "\<forall>b. unat b < T \<longrightarrow>
        unat (da_size (bkts ?s1 ! unat b)) + unat (?h1 (cad nb i b)) + cnt f js (unat b)
          < 18446744073709551616"
    proof (intro allI impI)
      fix b :: uintE assume b: "unat b < T"
      show "unat (da_size (bkts ?s1 ! unat b)) + unat (?h1 (cad nb i b)) + cnt f js (unat b)
          < 18446744073709551616"
      proof (cases "b = b0")
        case True
        then show ?thesis using w64_0 h1c by (simp add: nth1 [OF b0T])
      next
        case False
        then have "unat b0 \<noteq> unat b" by (simp add: word_unat_eq_iff)
        then show ?thesis
          using Cons.prems(6) [rule_format, OF b] False other [OF b False] by (simp add: nth1 [OF b] cn)
      qed
    qed
    from Cons.IH [OF q1 Cons.prems(2) q3 q4 q5 q6] obtain h' s' where
      run: "for_loop js (scatter_item f nb i) (?h1, ?s1) = Inr (h', s')"
      and hh: "\<forall>x. h' x = ?h1 x + of_nat (length (filter (\<lambda>vb. cad nb i (snd vb) = x) (batch f js)))"
      and ll: "length (bkts s') = T"
      and ss: "frame_eq ?s1 s'" and ne: "num_elms s' = num_elms ?s1"
      and aa: "\<forall>b. unat b < T \<longrightarrow>
             da_size (bkts s' ! unat b) = da_size (bkts ?s1 ! unat b) \<and>
             da_A (bkts s' ! unat b) =
               write_at (unat (da_size (bkts ?s1 ! unat b)) + unat (?h1 (cad nb i b)))
                        (added f js (unat b)) (da_A (bkts ?s1 ! unat b))"
      by blast
    have r: "for_loop (j # js) (scatter_item f nb i) (h, s) = Inr (h', s')"
      using st run by simp
    have hh': "\<forall>x. h' x = h x + of_nat (length (filter (\<lambda>vb. cad nb i (snd vb) = x) (batch f (j # js))))"
      using hh unfolding bt by simp
    have ss': "frame_eq s s'" "num_elms s' = num_elms s" using ss ne by simp_all
    have aa': "\<forall>b. unat b < T \<longrightarrow>
             da_size (bkts s' ! unat b) = da_size (bkts s ! unat b) \<and>
             da_A (bkts s' ! unat b) =
               write_at (unat (da_size (bkts s ! unat b)) + unat (h (cad nb i b)))
                        (added f (j # js) (unat b)) (da_A (bkts s ! unat b))"
    proof (intro allI impI)
      fix b :: uintE assume b: "unat b < T"
      from aa [rule_format, OF b] have 1: "da_size (bkts s' ! unat b) = da_size (bkts ?s1 ! unat b)"
        and 2: "da_A (bkts s' ! unat b) =
               write_at (unat (da_size (bkts ?s1 ! unat b)) + unat (?h1 (cad nb i b)))
                        (added f js (unat b)) (da_A (bkts ?s1 ! unat b))"
        by simp_all
      show "da_size (bkts s' ! unat b) = da_size (bkts s ! unat b) \<and>
             da_A (bkts s' ! unat b) =
               write_at (unat (da_size (bkts s ! unat b)) + unat (h (cad nb i b)))
                        (added f (j # js) (unat b)) (da_A (bkts s ! unat b))"
      proof (cases "b = b0")
        case True
        have l: "?p0 + Suc (length (added f js (unat b0))) \<le> length (da_A ?a0)"
          using room0 by (simp add: cnt_def)
        have "da_A (bkts s' ! unat b0) = write_at (Suc ?p0) (added f js (unat b0)) ((da_A ?a0)[?p0 := v])"
          using 2 True h1c by (simp add: nth1 [OF b0T])
        also have "\<dots> = write_at ?p0 (v # added f js (unat b0)) (da_A ?a0)"
          by (rule write_at_upd [OF l])
        finally show ?thesis using 1 True by (simp add: nth1 [OF b0T] ad)
      next
        case False
        then have "unat b0 \<noteq> unat b" by (simp add: word_unat_eq_iff)
        then show ?thesis
          using 1 2 False other [OF b False] by (simp add: nth1 [OF b] ad)
      qed
    qed
    show ?thesis using r hh' ll ss' aa' by blast
  qed
qed

lemma fold_upd_other:
  "x \<notin> g ` set ys \<Longrightarrow> fold (\<lambda>y h. h(g y := v y)) ys h x = h x"
  by (induction ys arbitrary: h) auto

lemma fold_upd_hit:
  "inj_on g (set ys) \<Longrightarrow> y \<in> set ys \<Longrightarrow> fold (\<lambda>y h. h(g y := v y)) ys h (g y) = v y"
proof (induction ys arbitrary: h)
  case Nil
  then show ?case by simp
next
  case (Cons a ys)
  show ?case
  proof (cases "y \<in> set ys")
    case True
    then show ?thesis using Cons by (simp add: inj_on_def)
  next
    case False
    then have ya: "y = a" using Cons.prems by simp
    have "g a \<notin> g ` set ys"
      using False Cons.prems(1) ya by (auto simp: inj_on_def)
    then have "fold (\<lambda>y h. h(g y := v y)) ys (h(g a := v a)) (g a) = (h(g a := v a)) (g a)"
      by (rule fold_upd_other)
    then show ?thesis unfolding ya by (simp only: fold_simps o_apply fun_upd_same)
  qed
qed

lemma cell_inj:
  assumes "0 < (B::nat)" "j < B" "j' < B" "(b * B + j) * 64 = (b' * B + j') * 64"
  shows "b = b' \<and> j = j'"
proof -
  have e: "b * B + j = b' * B + j'" using assms(4) by simp
  have "(b * B + j) div B = b" "(b' * B + j') div B = b'" using assms by simp_all
  then have "b = b'" using e by simp
  then show ?thesis using e by simp
qed

lemma offsets_slot_nat:
  assumes bound: "(n * unat nb + unat nb) * 64 < 18446744073709551616"
  shows "offsets_slot outs nb (of_nat n) h =
         fold (\<lambda>j h. h((n * unat nb + j) * 64 := outs (n * unat nb + j) - outs (n * unat nb)))
              [0..<unat nb] h"
proof -
  let ?B = "unat nb"
  have a0: "unat ((of_nat n :: size_t) * nb) = n * ?B"
    using unat_lin2 [of n ?B 0] bound by simp
  have a1: "unat ((of_nat n :: size_t) * nb + of_nat j) = n * ?B + j" if "j < ?B" for j
    using unat_lin2 [of n ?B j] bound that by simp
  have a2: "unat (((of_nat n :: size_t) * nb + of_nat j) * CACHE_LINE_S) = (n * ?B + j) * 64"
    if "j < ?B" for j
    using unat_lin2_64 [of n ?B j] bound that by (simp add: CACHE_LINE_S_def)
  have "fold (\<lambda>j h. h(unat (((of_nat n :: size_t) * nb + j) * CACHE_LINE_S) :=
                         outs (unat ((of_nat n :: size_t) * nb + j)) - outs (n * ?B)))
              (map of_nat [0..<?B]) h
      = fold (\<lambda>j h. h((n * ?B + j) * 64 := outs (n * ?B + j) - outs (n * ?B))) [0..<?B] h"
    unfolding fold_map comp_def
    by (rule fold_cong) (simp_all add: a1 a2)
  then show ?thesis
    by (simp add: offsets_slot_def Let_def a0 range_sz_def)
qed

lemma offsets_all:
  assumes B: "0 < unat nb"
    and bound: "(unat tb * unat nb + unat nb) * 64 < 18446744073709551616"
    and outs: "\<And>j. j \<le> unat nb * unat tb \<Longrightarrow> outs j = of_nat (psum C (unat nb) j)"
    and n: "n \<le> unat tb"
  shows "\<forall>b < n. \<forall>j < unat nb.
           fold (offsets_slot outs nb) (map of_nat [0..<n]) h ((b * unat nb + j) * 64)
           = of_nat (offs C j b) "
  using n
proof (induction n)
  case 0
  show ?case by simp
next
  case (Suc n)
  let ?B = "unat nb" and ?T = "unat tb"
  let ?hn = "fold (offsets_slot outs nb) (map of_nat [0..<n]) h"
  let ?g = "\<lambda>j. (n * ?B + j) * 64"
  let ?v = "\<lambda>j. outs (n * ?B + j) - outs (n * ?B)"
  have nT: "n < ?T" using Suc.prems by simp
  then have "n * ?B \<le> ?T * ?B" by simp
  then have "n * ?B + ?B \<le> ?T * ?B + ?B" by simp
  then have "(n * ?B + ?B) * 64 \<le> (?T * ?B + ?B) * 64" by simp
  then have bn: "(n * ?B + ?B) * 64 < 18446744073709551616" using bound by linarith
  have step: "fold (offsets_slot outs nb) (map of_nat [0..<Suc n]) h
            = fold (\<lambda>j h. h(?g j := ?v j)) [0..<?B] ?hn"
    by (simp add: offsets_slot_nat [OF bn])
  have inj: "inj_on ?g (set [0..<?B])" by (simp add: inj_on_def)
  show ?case
  proof (intro allI impI)
    fix b j assume b: "b < Suc n" and j: "j < ?B"
    show "fold (offsets_slot outs nb) (map of_nat [0..<Suc n]) h ((b * ?B + j) * 64)
           = of_nat (offs C j b)"
    proof (cases "b = n")
      case True
      have le1: "n * ?B + j \<le> ?B * ?T"
      proof -
        have "n * ?B + j \<le> n * ?B + ?B" using j by simp
        also have "\<dots> = Suc n * ?B" by simp
        also have "\<dots> \<le> ?T * ?B" using nT by (intro mult_le_mono1) simp
        finally show ?thesis by (simp add: mult.commute)
      qed
      have le0: "n * ?B \<le> ?B * ?T" using le1 by linarith
      have ps: "psum C ?B (n * ?B + j) = psum C ?B (n * ?B) + offs C j n"
        using psum_block [OF B, of j C n] j by simp
      have "?v j = of_nat (psum C ?B (n * ?B + j)) - of_nat (psum C ?B (n * ?B))"
        using outs [OF le1] outs [OF le0] by simp
      also have "\<dots> = of_nat (offs C j n)" by (simp add: ps)
      finally have v: "?v j = of_nat (offs C j n)" .
      have "fold (\<lambda>j h. h(?g j := ?v j)) [0..<?B] ?hn (?g j) = ?v j"
        using inj j by (intro fold_upd_hit) simp_all
      then show ?thesis using True step v by simp
    next
      case False
      then have bn': "b < n" using b by simp
      have "(b * ?B + j) * 64 \<notin> ?g ` set [0..<?B]"
      proof
        assume "(b * ?B + j) * 64 \<in> ?g ` set [0..<?B]"
        then obtain j' where "j' < ?B" "(b * ?B + j) * 64 = (n * ?B + j') * 64" by auto
        from cell_inj [OF B j this] show False using False by simp
      qed
      then have "fold (\<lambda>j h. h(?g j := ?v j)) [0..<?B] ?hn ((b * ?B + j) * 64)
               = ?hn ((b * ?B + j) * 64)"
        by (rule fold_upd_other)
      then show ?thesis using step Suc.IH nT bn' j by simp
    qed
  qed
qed

lemma resize_fold:
  assumes "length (bkts s) = unat (tb :: size_t)" "n \<le> unat tb"
  shows "length (bkts (fold (resize_slot outs nb) (map of_nat [0..<n]) s)) = length (bkts s) \<and>
         (\<forall>b < length (bkts s).
            bkts (fold (resize_slot outs nb) (map of_nat [0..<n]) s) ! b =
              (if b < n then resize (num_inc outs nb (of_nat b)) (bkts s ! b) else bkts s ! b)) \<and>
         num_elms (fold (resize_slot outs nb) (map of_nat [0..<n]) s)
           = num_elms s + (\<Sum>b < n. num_inc outs nb (of_nat b)) \<and>
         frame_eq s (fold (resize_slot outs nb) (map of_nat [0..<n]) s)"
  using assms(2)
proof (induction n)
  case 0
  show ?case by simp
next
  case (Suc n)
  let ?sn = "fold (resize_slot outs nb) (map of_nat [0..<n]) s"
  have n: "n < unat tb" using Suc.prems by simp
  have un: "unat (of_nat n :: size_t) = n"
    using n unat_size_t_less [of tb] by (intro unat_of_nat_sz) linarith
  have st: "fold (resize_slot outs nb) (map of_nat [0..<Suc n]) s = resize_slot outs nb (of_nat n) ?sn"
    by simp
  from Suc.IH n have ih1: "length (bkts ?sn) = length (bkts s)"
    and ih2: "\<forall>b < length (bkts s). bkts ?sn ! b =
              (if b < n then resize (num_inc outs nb (of_nat b)) (bkts s ! b) else bkts s ! b)"
    and ih3: "num_elms ?sn = num_elms s + (\<Sum>b < n. num_inc outs nb (of_nat b))"
    and ih4: "frame_eq s ?sn"
    by simp_all
  have nl: "n < length (bkts s)" using n assms(1) by simp
  show ?case
    unfolding st
  proof (intro conjI allI impI)
    show "length (bkts (resize_slot outs nb (of_nat n) ?sn)) = length (bkts s)"
      using ih1 by (simp add: resize_slot_def)
    show "num_elms (resize_slot outs nb (of_nat n) ?sn)
           = num_elms s + (\<Sum>b < Suc n. num_inc outs nb (of_nat b))"
      using ih3 by (simp add: resize_slot_def)
    show "frame_eq s (resize_slot outs nb (of_nat n) ?sn)"
      using ih4 by (simp add: resize_slot_def)
  next
    fix b assume b: "b < length (bkts s)"
    show "bkts (resize_slot outs nb (of_nat n) ?sn) ! b =
              (if b < Suc n then resize (num_inc outs nb (of_nat b)) (bkts s ! b) else bkts s ! b)"
      using ih2 [rule_format, OF b] ih2 [rule_format, OF nl] ih1 b nl
      by (auto simp: resize_slot_def un nth_list_update)
  qed
qed

lemma commit_fold:
  assumes "length (bkts s) = unat (tb :: size_t)" "n \<le> unat tb"
  shows "length (bkts (fold (commit_slot outs nb) (map of_nat [0..<n]) s)) = length (bkts s) \<and>
         (\<forall>b < length (bkts s).
            bkts (fold (commit_slot outs nb) (map of_nat [0..<n]) s) ! b =
              (if b < n then (bkts s ! b)\<lparr>da_size := da_size (bkts s ! b) + num_inc outs nb (of_nat b)\<rparr>
               else bkts s ! b)) \<and>
         frame_eq s (fold (commit_slot outs nb) (map of_nat [0..<n]) s) \<and>
         num_elms (fold (commit_slot outs nb) (map of_nat [0..<n]) s) = num_elms s"
  using assms(2)
proof (induction n)
  case 0
  show ?case by simp
next
  case (Suc n)
  let ?sn = "fold (commit_slot outs nb) (map of_nat [0..<n]) s"
  have n: "n < unat tb" using Suc.prems by simp
  have un: "unat (of_nat n :: size_t) = n"
    using n unat_size_t_less [of tb] by (intro unat_of_nat_sz) linarith
  have st: "fold (commit_slot outs nb) (map of_nat [0..<Suc n]) s = commit_slot outs nb (of_nat n) ?sn"
    by simp
  from Suc.IH n have ih1: "length (bkts ?sn) = length (bkts s)"
    and ih2: "\<forall>b < length (bkts s). bkts ?sn ! b =
              (if b < n then (bkts s ! b)\<lparr>da_size := da_size (bkts s ! b) + num_inc outs nb (of_nat b)\<rparr>
               else bkts s ! b)"
    and ih4: "frame_eq s ?sn" and ih5: "num_elms ?sn = num_elms s"
    by simp_all
  have nl: "n < length (bkts s)" using n assms(1) by simp
  show ?case
    unfolding st
  proof (intro conjI allI impI)
    show "length (bkts (commit_slot outs nb (of_nat n) ?sn)) = length (bkts s)"
      using ih1 by (simp add: commit_slot_def Let_def)
    show "frame_eq s (commit_slot outs nb (of_nat n) ?sn)"
      using ih4 by (simp add: commit_slot_def Let_def)
    show "num_elms (commit_slot outs nb (of_nat n) ?sn) = num_elms s"
      using ih5 by (simp add: commit_slot_def Let_def)
  next
    fix b assume b: "b < length (bkts s)"
    show "bkts (commit_slot outs nb (of_nat n) ?sn) ! b =
              (if b < Suc n then (bkts s ! b)\<lparr>da_size := da_size (bkts s ! b) + num_inc outs nb (of_nat b)\<rparr>
               else bkts s ! b)"
      using ih2 [rule_format, OF b] ih2 [rule_format, OF nl] ih1 b nl
      by (auto simp: commit_slot_def Let_def un nth_list_update)
  qed
qed

lemma cad_nat:
  assumes "(unat b * unat nb + i) * 64 < 18446744073709551616"
  shows "cad nb (of_nat i) b = (unat b * unat nb + i) * 64"
  using unat_lin2_64 [OF assms] by (simp add: cad_def CACHE_LINE_S_def)

lemma scatter_block_alt:
  "scatter_block f k bsz nb i hs = for_loop (blk k bsz i) (scatter_item f nb i) hs"
  by (simp add: scatter_block_def blk_def Let_def)

lemma offs_bcnt:
  "offs (bcnt f k bsz) n b = cnt f (concat (map (\<lambda>i. blk k bsz (of_nat i)) [0..<n])) b"
  by (simp add: offs_def bcnt_def cnt_concat)

lemma scatter_all:
  assumes B: "0 < unat nb"
    and len: "length (bkts s) = T" and T32: "T \<le> 4294967296"
    and bound: "(T * unat nb + unat nb) * 64 < 18446744073709551616"
    and dests: "\<forall>i < unat nb. \<forall>vb \<in> set (batch f (blk k bsz (of_nat i))). unat (snd vb) < T"
    and cur: "\<forall>b < T. \<forall>i < unat nb.
                h ((b * unat nb + i) * 64) = of_nat (offs (bcnt f k bsz) i b)"
    and N32: "\<forall>b < T. offs (bcnt f k bsz) (unat nb) b < 4294967296"
    and room: "\<forall>b < T. unat (da_size (bkts s ! b)) + offs (bcnt f k bsz) (unat nb) b
                 \<le> length (da_A (bkts s ! b))"
    and w64: "\<forall>b < T. unat (da_size (bkts s ! b)) + offs (bcnt f k bsz) (unat nb) b
                 < 18446744073709551616"
    and n: "n \<le> unat nb"
  shows "\<exists>h' s'. for_loop (map of_nat [0..<n]) (scatter_block f k bsz nb) (h, s) = Inr (h', s') \<and>
          (\<forall>b < T. \<forall>i. n \<le> i \<and> i < unat nb \<longrightarrow>
              h' ((b * unat nb + i) * 64) = of_nat (offs (bcnt f k bsz) i b)) \<and>
          length (bkts s') = T \<and> frame_eq s s' \<and> num_elms s' = num_elms s \<and>
          (\<forall>b < T. da_size (bkts s' ! b) = da_size (bkts s ! b) \<and>
             da_A (bkts s' ! b) =
               write_at (unat (da_size (bkts s ! b)))
                 (added f (concat (map (\<lambda>i. blk k bsz (of_nat i)) [0..<n])) b)
                 (da_A (bkts s ! b)))"
  using n
proof (induction n)
  case 0
  show ?case
    by (intro exI [of _ h] exI [of _ s]) (use cur len in simp)
next
  case (Suc n)
  let ?B = "unat nb"
  let ?C = "bcnt f k bsz"
  let ?pre = "\<lambda>n. concat (map (\<lambda>i. blk k bsz (of_nat i)) [0..<n])"
  have nB: "n < ?B" using Suc.prems by simp
  from Suc.IH nB obtain hn sn where
    run: "for_loop (map of_nat [0..<n]) (scatter_block f k bsz nb) (h, s) = Inr (hn, sn)"
    and cn: "\<forall>b < T. \<forall>i. n \<le> i \<and> i < ?B \<longrightarrow> hn ((b * ?B + i) * 64) = of_nat (offs ?C i b)"
    and ln: "length (bkts sn) = T" and fn: "frame_eq s sn" and nen: "num_elms sn = num_elms s"
    and an: "\<forall>b < T. da_size (bkts sn ! b) = da_size (bkts s ! b) \<and>
             da_A (bkts sn ! b) = write_at (unat (da_size (bkts s ! b))) (added f (?pre n) b)
                 (da_A (bkts s ! b))"
    by auto
  let ?i = "of_nat n :: size_t"
  have adr: "cad nb ?i b = (unat b * ?B + n) * 64" if "unat b < T" for b
  proof -
    have "unat b * ?B + n < T * ?B + ?B"
    proof -
      have "Suc (unat b) \<le> T" using that by simp
      then have "Suc (unat b) * ?B \<le> T * ?B" by (rule mult_le_mono1)
      then show ?thesis using nB by simp
    qed
    then have "(unat b * ?B + n) * 64 < (T * ?B + ?B) * 64" by simp
    then have "(unat b * ?B + n) * 64 < 18446744073709551616" using bound by linarith
    then show ?thesis by (rule cad_nat)
  qed
  have inj: "\<forall>b b'. unat b < T \<longrightarrow> unat b' < T \<longrightarrow> cad nb ?i b = cad nb ?i b' \<longrightarrow> b = b'"
  proof (intro allI impI)
    fix b b' :: uintE
    assume "unat b < T" "unat b' < T" "cad nb ?i b = cad nb ?i b'"
    then have "(unat b * ?B + n) * 64 = (unat b' * ?B + n) * 64" by (simp add: adr)
    from cell_inj [OF B nB nB this] show "b = b'" by (simp add: word_unat_eq_iff)
  qed
  have d: "\<forall>vb \<in> set (batch f (blk k bsz ?i)). unat (snd vb) < T" using dests nB by blast
  have pos: "hn (cad nb ?i b) = of_nat (offs ?C n (unat b))" if "unat b < T" for b
    using cn [rule_format, OF that, of n] nB by (simp add: adr [OF that])
  have offS: "offs ?C (Suc n) b = offs ?C n b + cnt f (blk k bsz ?i) b" for b
    by (simp add: offs_def bcnt_def)
  have offle: "offs ?C (Suc n) b \<le> offs ?C ?B b" for b
    using nB by (intro offs_mono) simp
  have upos: "unat (hn (cad nb ?i b)) = offs ?C n (unat b)" if "unat b < T" for b
  proof -
    have "offs ?C n (unat b) \<le> offs ?C ?B (unat b)" using nB by (intro offs_mono) simp
    then have "offs ?C n (unat b) < 4294967296" using N32 that by fastforce
    then show ?thesis by (simp add: pos [OF that] unat_of_nat_uintE)
  qed
  have szn: "da_size (bkts sn ! unat b) = da_size (bkts s ! unat b)" if "unat b < T" for b
    using an that by simp
  have lenA: "length (da_A (bkts sn ! unat b)) = length (da_A (bkts s ! unat b))" if "unat b < T" for b
  proof -
    have "offs ?C n (unat b) \<le> offs ?C ?B (unat b)" using nB by (intro offs_mono) simp
    then have "unat (da_size (bkts s ! unat b)) + length (added f (?pre n) (unat b))
          \<le> length (da_A (bkts s ! unat b))"
      using room [rule_format, OF that] by (simp add: offs_bcnt cnt_def)
    then show ?thesis using an [rule_format, OF that] by (simp add: length_write_at)
  qed
  have r1: "\<forall>b. unat b < T \<longrightarrow>
        unat (da_size (bkts sn ! unat b)) + unat (hn (cad nb ?i b)) + cnt f (blk k bsz ?i) (unat b)
          \<le> length (da_A (bkts sn ! unat b))"
  proof (intro allI impI)
    fix b :: uintE assume b: "unat b < T"
    show "unat (da_size (bkts sn ! unat b)) + unat (hn (cad nb ?i b)) + cnt f (blk k bsz ?i) (unat b)
          \<le> length (da_A (bkts sn ! unat b))"
      using room [rule_format, OF b] offle [of "unat b"]
      by (simp add: szn [OF b] lenA [OF b] upos [OF b] offS)
  qed
  have r2: "\<forall>b. unat b < T \<longrightarrow> unat (hn (cad nb ?i b)) + cnt f (blk k bsz ?i) (unat b) < 4294967296"
  proof (intro allI impI)
    fix b :: uintE assume b: "unat b < T"
    show "unat (hn (cad nb ?i b)) + cnt f (blk k bsz ?i) (unat b) < 4294967296"
      using N32 [rule_format, OF b] offle [of "unat b"]
      by (simp add: upos [OF b] offS)
  qed
  have r3: "\<forall>b. unat b < T \<longrightarrow>
        unat (da_size (bkts sn ! unat b)) + unat (hn (cad nb ?i b)) + cnt f (blk k bsz ?i) (unat b)
          < 18446744073709551616"
  proof (intro allI impI)
    fix b :: uintE assume b: "unat b < T"
    show "unat (da_size (bkts sn ! unat b)) + unat (hn (cad nb ?i b)) + cnt f (blk k bsz ?i) (unat b)
          < 18446744073709551616"
      using w64 [rule_format, OF b] offle [of "unat b"]
      by (simp add: szn [OF b] upos [OF b] offS)
  qed
  from scatter_loop [OF ln inj d r1 r2 r3] obtain h' s' where
    run': "for_loop (blk k bsz ?i) (scatter_item f nb ?i) (hn, sn) = Inr (h', s')"
    and hh: "\<forall>x. h' x = hn x + of_nat (length (filter (\<lambda>vb. cad nb ?i (snd vb) = x) (batch f (blk k bsz ?i))))"
    and ll: "length (bkts s') = T" and ff: "frame_eq sn s'" and nn: "num_elms s' = num_elms sn"
    and aa: "\<forall>b. unat b < T \<longrightarrow>
             da_size (bkts s' ! unat b) = da_size (bkts sn ! unat b) \<and>
             da_A (bkts s' ! unat b) =
               write_at (unat (da_size (bkts sn ! unat b)) + unat (hn (cad nb ?i b)))
                        (added f (blk k bsz ?i) (unat b)) (da_A (bkts sn ! unat b))"
    by blast
  have total: "for_loop (map of_nat [0..<Suc n]) (scatter_block f k bsz nb) (h, s) = Inr (h', s')"
    using run run' by (simp add: for_loop_append scatter_block_alt)
  have c': "\<forall>b < T. \<forall>i. Suc n \<le> i \<and> i < ?B \<longrightarrow> h' ((b * ?B + i) * 64) = of_nat (offs ?C i b)"
  proof (intro allI impI)
    fix b i assume b: "b < T" and i: "Suc n \<le> i \<and> i < ?B"
    have "filter (\<lambda>vb. cad nb ?i (snd vb) = (b * ?B + i) * 64) (batch f (blk k bsz ?i)) = []"
    proof -
      have "cad nb ?i (snd vb) \<noteq> (b * ?B + i) * 64" if "vb \<in> set (batch f (blk k bsz ?i))" for vb
      proof
        assume e: "cad nb ?i (snd vb) = (b * ?B + i) * 64"
        have "unat (snd vb) < T" using d that by blast
        then have "(unat (snd vb) * ?B + n) * 64 = (b * ?B + i) * 64" using e by (simp add: adr)
        from cell_inj [OF B nB _ this] i show False by simp
      qed
      then show ?thesis by (simp add: filter_empty_conv)
    qed
    then show "h' ((b * ?B + i) * 64) = of_nat (offs ?C i b)"
      using hh cn [rule_format, OF b, of i] i by simp
  qed
  have a': "\<forall>b < T. da_size (bkts s' ! b) = da_size (bkts s ! b) \<and>
             da_A (bkts s' ! b) =
               write_at (unat (da_size (bkts s ! b))) (added f (?pre (Suc n)) b) (da_A (bkts s ! b))"
  proof (intro allI impI)
    fix b assume b: "b < T"
    let ?w = "of_nat b :: uintE"
    have ub: "unat ?w = b" using b T32 by (intro unat_of_nat_uintE) simp
    have bw: "unat ?w < T" using ub b by simp
    let ?sz = "unat (da_size (bkts s ! b))"
    let ?X = "added f (?pre n) b"
    let ?Y = "added f (blk k bsz ?i) b"
    have lX: "length ?X = offs ?C n b" by (simp add: offs_bcnt cnt_def)
    have fit: "?sz + length ?X + length ?Y \<le> length (da_A (bkts s ! b))"
      using room [rule_format, OF b] offle [of b] by (simp add: lX offS cnt_def)
    from aa [rule_format, OF bw]
    have 1: "da_size (bkts s' ! b) = da_size (bkts sn ! b)"
      and 2: "da_A (bkts s' ! b) =
               write_at (unat (da_size (bkts sn ! b)) + unat (hn (cad nb ?i ?w))) ?Y (da_A (bkts sn ! b))"
      by (simp_all add: ub)
    from an [rule_format, OF b]
    have 3: "da_size (bkts sn ! b) = da_size (bkts s ! b)"
      and 4: "da_A (bkts sn ! b) = write_at ?sz ?X (da_A (bkts s ! b))"
      by simp_all
    have "da_A (bkts s' ! b) = write_at (?sz + length ?X) ?Y (write_at ?sz ?X (da_A (bkts s ! b)))"
      using 2 upos [OF bw] by (simp add: 3 4 ub lX)
    also have "\<dots> = write_at ?sz (?X @ ?Y) (da_A (bkts s ! b))"
      by (rule write_at_write_at [OF fit])
    finally show "da_size (bkts s' ! b) = da_size (bkts s ! b) \<and>
             da_A (bkts s' ! b) =
               write_at (unat (da_size (bkts s ! b))) (added f (?pre (Suc n)) b) (da_A (bkts s ! b))"
      using 1 3 by simp
  qed
  have f': "frame_eq s s'" using fn ff by (rule frame_eq_trans)
  have n': "num_elms s' = num_elms s" using nn nen by simp
  show ?case using total c' ll f' n' a' by blast
qed

lemma set_batch_concat:
  "set (batch f (concat xss)) = (\<Union>xs \<in> set xss. set (batch f xs))"
  by (induction xss) simp_all

lemma sum_of_nat_word: "(\<Sum>b < (n::nat). (of_nat (g b) :: size_t)) = of_nat (\<Sum>b < n. g b)"
  by (induction n) simp_all

lemma par_effect:
  assumes B: "0 < unat nb" and B20: "unat nb \<le> 1048576" and K: "unat k < 4294967296"
    and len: "length (bkts s) = unat (total_buckets s)"
    and T32: "unat (total_buckets s) \<le> 4294967296"
    and wf: "\<forall>b < length (bkts s). wf_arr (bkts s ! b)"
    and sz: "\<forall>b < length (bkts s).
               unat (da_size (bkts s ! b)) + length (added f (range_sz 0 k) b) < 18446744073709551616"
    and dests: "\<forall>vb \<in> set (batch f (range_sz 0 k)). unat (snd vb) < length (bkts s)"
  shows "\<exists>s'. update_buckets_par nb f k s = Inr (of_nat (length (batch f (range_sz 0 k))), s') \<and>
              slots_extend (added f (range_sz 0 k)) s s' \<and>
              num_elms s' = num_elms s + of_nat (length (batch f (range_sz 0 k)))"
proof -
  let ?tb = "total_buckets s"
  let ?T = "unat ?tb" and ?B = "unat nb" and ?K = "unat k"
  let ?bsz = "(k + nb - 1) div nb"
  let ?bs = "unat ?bsz"
  let ?all = "range_sz 0 k"
  let ?C = "bcnt f k ?bsz"
  let ?N = "\<lambda>b. cnt f ?all b"
  have rT: "range_sz 0 ?tb = map of_nat [0..<?T]" by (simp add: range_sz_def)
  have rB: "range_sz 0 nb = map of_nat [0..<?B]" by (simp add: range_sz_def)
  have KB: "?K + ?B < 18446744073709551616" using K B20 by simp
  note bsn = block_size_nat [OF B KB]
  have bs_le: "?bs \<le> 4296015871"
  proof -
    have "?bs \<le> ?K + ?B - 1" unfolding bsn(1) by (rule div_le_dividend)
    then show ?thesis using K B20 by simp
  qed
  have tile_bound: "?B * ?bs + ?bs < 18446744073709551616"
  proof -
    have "?B * ?bs \<le> 1048576 * 4296015871" using B20 bs_le by (rule mult_le_mono)
    then show ?thesis using bs_le by simp
  qed
  have cover: "?K \<le> ?B * ?bs" using bsn(2) by (simp add: bsn(1))
  have tile: "concat (map (\<lambda>i. blk k ?bsz (of_nat i)) [0..<?B]) = ?all"
    by (rule blocks_tile [OF tile_bound cover])
  have BT: "?B * ?T \<le> 1048576 * 4294967296" using B20 T32 by (rule mult_le_mono)
  have bound1: "?B * ?T + ?T < 18446744073709551616" using BT T32 by simp
  have bound2: "?B * ?T < 18446744073709551616" using BT by simp
  have bound3: "(?T * ?B + ?B) * 64 < 18446744073709551616"
    using BT B20 by (simp add: mult.commute)
  have dblk: "\<forall>i < ?B. \<forall>vb \<in> set (batch f (blk k ?bsz (of_nat i))). unat (snd vb) < ?T"
  proof (intro allI impI ballI)
    fix i vb assume i: "i < ?B" and vb: "vb \<in> set (batch f (blk k ?bsz (of_nat i)))"
    have "vb \<in> set (batch f (concat (map (\<lambda>i. blk k ?bsz (of_nat i)) [0..<?B])))"
      unfolding set_batch_concat using i vb by auto
    then show "unat (snd vb) < ?T" using dests len unfolding tile by simp
  qed
  \<comment> \<open>step 1\<close>
  let ?H1 = "\<lambda>x. if x < ?B * ?T
                  then of_nat (cnt f (blk k ?bsz (of_nat (x div ?T))) (x mod ?T))
                  else (0 :: uintE)"
  have e1: "for_loop (range_sz 0 nb) (hist_block f k ?bsz ?tb (length (bkts s))) (\<lambda>_. 0) = Inr ?H1"
    using hist_all [OF bound1 dblk le_refl, of "\<lambda>_. 0"] by (simp add: rB len)
  have H1: "\<And>x. x < ?B * ?T \<Longrightarrow> ?H1 x = of_nat (?C (x div ?T) (x mod ?T))"
    by (simp add: bcnt_def)
  \<comment> \<open>step 2\<close>
  let ?outs = "make_outs ?H1 nb ?tb"
  have outs: "\<And>j. j \<le> ?B * ?T \<Longrightarrow> ?outs j = of_nat (psum ?C ?B j)"
    by (rule make_outs_psum [where C = ?C, OF B bound2 H1])
  have offN: "offs ?C ?B b = ?N b" for b
    by (simp add: offs_bcnt tile)
  have sumN: "(\<Sum>b < ?T. ?N b) = length (batch f ?all)"
    using dests len by (intro sum_cnt_slots) simp
  have lenK: "length (batch f ?all) \<le> ?K"
    using length_batch_le [of f ?all] by (simp add: range_sz_def)
  have N32: "?N b < 4294967296" for b
    using cnt_le_batch [of f ?all b] lenK K by linarith
  have ptot: "psum ?C ?B (?B * ?T) = length (batch f ?all)"
    using psum_total [OF B, of ?C ?T] by (simp add: offN sumN mult.commute)
  have pb: "psum ?C ?B (b * ?B + ?B) = psum ?C ?B (b * ?B) + ?N b" for b
    using psum_block [OF B le_refl, of ?C b] by (simp add: offN)
  have ninc: "num_inc ?outs nb (of_nat b) = of_nat (?N b)" if "b < ?T" for b
  proof -
    have "Suc b \<le> ?T" using that by simp
    then have le1: "Suc b * ?B \<le> ?T * ?B" by (rule mult_le_mono1)
    then have le1': "b * ?B + ?B \<le> ?B * ?T" by (simp add: mult.commute)
    then have le0: "b * ?B \<le> ?B * ?T" by linarith
    have "b * ?B + ?B < 18446744073709551616" using le1' bound2 by linarith
    then have u1: "unat ((of_nat b + 1 :: size_t) * nb) = b * ?B + ?B"
      using unat_lin2 [of b ?B ?B] by (simp add: algebra_simps)
    have "b * ?B < 18446744073709551616" using le0 bound2 by linarith
    then have u0: "unat ((of_nat b :: size_t) * nb) = b * ?B"
      using unat_lin2 [of b ?B 0] by simp
    have "?outs (b * ?B + ?B) - ?outs (b * ?B) = of_nat (?N b)"
      by (simp add: outs [OF le1'] outs [OF le0] pb)
    then show ?thesis
      by (simp only: num_inc_def u1 u0 ucast_of_nat_uintE [OF N32])
  qed
  have uN: "unat (of_nat (?N b) :: size_t) = ?N b" for b
    using N32 [of b] by (intro unat_of_nat_sz) simp
  \<comment> \<open>step 3\<close>
  let ?s3 = "fold (resize_slot ?outs nb) (range_sz 0 ?tb) s"
  note rf = resize_fold [OF len le_refl, of ?outs nb]
  have s3len: "length (bkts ?s3) = ?T" using rf len by (simp add: rT)
  have s3nth: "bkts ?s3 ! b = resize (of_nat (?N b)) (bkts s ! b)" if "b < ?T" for b
    using rf that len by (simp add: rT ninc)
  have s3ne: "num_elms ?s3 = num_elms s + of_nat (length (batch f ?all))"
  proof -
    have "(\<Sum>b < ?T. num_inc ?outs nb (of_nat b)) = (\<Sum>b < ?T. (of_nat (?N b) :: size_t))"
      by (intro sum.cong refl) (simp add: ninc)
    also have "\<dots> = of_nat (\<Sum>b < ?T. ?N b)" by (rule sum_of_nat_word)
    finally show ?thesis using rf by (simp add: rT sumN)
  qed
  have s3fr: "frame_eq s ?s3" using rf by (simp add: rT)
  have s3sz: "da_size (bkts ?s3 ! b) = da_size (bkts s ! b)" if "b < ?T" for b
    by (simp add: s3nth [OF that])
  have s3cap: "unat (da_size (bkts s ! b)) + ?N b \<le> length (da_A (bkts ?s3 ! b))" if "b < ?T" for b
    using length_resize [of "bkts s ! b" "of_nat (?N b)"] by (simp add: s3nth [OF that] uN)
  have s3el: "take (unat (da_size (bkts s ! b))) (da_A (bkts ?s3 ! b)) = elems (bkts s ! b)"
    if "b < ?T" for b
  proof -
    have "wf_arr (bkts s ! b)" using wf that len by simp
    from elems_resize [OF this, of "of_nat (?N b)"] show ?thesis
      by (simp add: s3nth [OF that] elems_def)
  qed
  \<comment> \<open>step 4\<close>
  let ?h4 = "fold (offsets_slot ?outs nb) (range_sz 0 ?tb) ?H1"
  have cur: "\<forall>b < ?T. \<forall>i < ?B. ?h4 ((b * ?B + i) * 64) = of_nat (offs ?C i b)"
    using offsets_all [where C = ?C, OF B bound3 outs le_refl, of ?H1]
    by (simp add: rT)
  \<comment> \<open>step 5\<close>
  have c5: "\<forall>b < ?T. offs ?C ?B b < 4294967296" using N32 by (simp add: offN)
  have r5: "\<forall>b < ?T. unat (da_size (bkts ?s3 ! b)) + offs ?C ?B b \<le> length (da_A (bkts ?s3 ! b))"
    using s3cap by (simp add: offN s3sz)
  have w5: "\<forall>b < ?T. unat (da_size (bkts ?s3 ! b)) + offs ?C ?B b < 18446744073709551616"
    using sz len by (simp add: offN s3sz cnt_def)
  from scatter_all [OF B s3len T32 bound3 dblk cur c5 r5 w5 le_refl]
  obtain h5 s5 where
    e5: "for_loop (map of_nat [0..<?B]) (scatter_block f k ?bsz nb) (?h4, ?s3) = Inr (h5, s5)"
    and s5len: "length (bkts s5) = ?T" and s5fr: "frame_eq ?s3 s5"
    and s5ne: "num_elms s5 = num_elms ?s3"
    and s5a: "\<forall>b < ?T. da_size (bkts s5 ! b) = da_size (bkts ?s3 ! b) \<and>
             da_A (bkts s5 ! b) =
               write_at (unat (da_size (bkts ?s3 ! b))) (added f ?all b) (da_A (bkts ?s3 ! b))"
    unfolding tile by blast
  \<comment> \<open>step 6\<close>
  let ?s6 = "fold (commit_slot ?outs nb) (range_sz 0 ?tb) s5"
  have len5: "length (bkts s5) = unat ?tb" using s5len by simp
  note cf = commit_fold [OF len5 le_refl, of ?outs nb]
  have s6len: "length (bkts ?s6) = ?T" using cf s5len by (simp add: rT)
  have s6nth: "bkts ?s6 ! b = (bkts s5 ! b)\<lparr>da_size := da_size (bkts s5 ! b) + of_nat (?N b)\<rparr>"
    if "b < ?T" for b
    using cf that s5len by (simp add: rT ninc)
  have s6fr: "frame_eq s5 ?s6" using cf by (simp add: rT)
  have s6ne: "num_elms ?s6 = num_elms s5" using cf by (simp add: rT)
  have res: "update_buckets_par nb f k s = Inr (num_elms ?s6 - num_elms s, ?s6)"
    using e1 e5 by (simp add: update_buckets_par_def Let_def rB)
  have ne6: "num_elms ?s6 = num_elms s + of_nat (length (batch f ?all))"
    by (simp add: s6ne s5ne s3ne)
  have ext: "slots_extend (added f ?all) s ?s6"
    unfolding slots_extend_def
  proof (intro conjI allI impI)
    show "length (bkts ?s6) = length (bkts s)" using s6len len by simp
    show "frame_eq s ?s6" using s3fr s5fr s6fr by (blast intro: frame_eq_trans)
  next
    fix b assume "b < length (bkts s)"
    then have b: "b < ?T" using len by simp
    let ?sz = "unat (da_size (bkts s ! b))"
    let ?X = "added f ?all b"
    have lX: "length ?X = ?N b" by (simp add: cnt_def)
    from s5a [rule_format, OF b]
    have a5: "da_size (bkts s5 ! b) = da_size (bkts s ! b)"
      and A5: "da_A (bkts s5 ! b) = write_at ?sz ?X (da_A (bkts ?s3 ! b))"
      by (simp_all add: s3sz [OF b])
    have nw: "?sz + ?N b < 18446744073709551616" using sz b len by (simp add: cnt_def)
    have usz: "unat (da_size (bkts s ! b) + of_nat (?N b)) = ?sz + ?N b"
      using nw unat_add_sz [of "da_size (bkts s ! b)" "of_nat (?N b)"] by (simp add: uN)
    have fit: "?sz + length ?X \<le> length (da_A (bkts ?s3 ! b))" using s3cap [OF b] by (simp add: lX)
    show "unat (da_size (bkts ?s6 ! b)) = ?sz + length ?X"
      by (simp add: s6nth [OF b] a5 usz lX)
    show "wf_arr (bkts ?s6 ! b)"
      using fit by (simp add: wf_arr_def s6nth [OF b] a5 usz A5 length_write_at lX)
    have "take (?sz + length ?X) (write_at ?sz ?X (da_A (bkts ?s3 ! b))) = elems (bkts s ! b) @ ?X"
      using take_write_at [OF fit] by (simp add: s3el [OF b])
    then show "elems (bkts ?s6 ! b) = elems (bkts s ! b) @ ?X"
      by (simp add: elems_def s6nth [OF b] a5 usz A5 lX)
  qed
  show ?thesis
    using res ext ne6 by (intro exI [of _ ?s6]) simp
qed

lemma unat_ucast_down: "unat (ucast (x :: size_t) :: uintE) = unat x mod 4294967296"
  by (simp add: unsigned_ucast_eq take_bit_eq_mod)

lemma ucast_up_inj: "(ucast (x :: uintE) :: size_t) = ucast y \<longleftrightarrow> x = y"
  by (metis unat_ucast_up word_unat_eq_iff)

lemma ucast_down_up:
  "unat (x :: size_t) < 4294967296 \<Longrightarrow> (ucast (ucast x :: uintE) :: size_t) = x"
  by (simp add: word_unat_eq_iff unat_ucast_up unat_ucast_down)

lemma unat_null_bkt: "unat null_bkt = 4294967295"
  by (simp add: null_bkt_def)

lemma unat_mult_sz:
  "unat (a :: size_t) * unat b < 18446744073709551616 \<Longrightarrow> unat (a * b) = unat a * unat b"
  using unat_mult_lem [of a b] by simp

lemma to_range_null:
  assumes inc: "order s = increasing"
    and le: "(unat (cur_range s) + 1) * unat (open_buckets s) \<le> unat null_bkt"
  shows "to_range s null_bkt = ucast (open_buckets s)"
proof -
  let ?c = "cur_range s" and ?o = "open_buckets s"
  have le': "(unat ?c + 1) * unat ?o \<le> 4294967295"
    using le by (simp add: unat_null_bkt)
  show ?thesis
  proof (cases "?o = 0")
    case True
    then show ?thesis using inc by (simp add: to_range_def)
  next
    case False
    then have opos: "1 \<le> unat ?o" by (simp add: unat_gt_0 Suc_le_eq)
    have "(unat ?c + 1) * 1 \<le> (unat ?c + 1) * unat ?o"
      using opos by (rule mult_le_mono2)
    then have c1: "unat ?c + 1 \<le> 4294967295" using le' by simp
    have uc1: "unat (?c + 1) = unat ?c + 1"
      using c1 unat_add_sz [of ?c 1] by simp
    have "unat ?c * unat ?o \<le> (unat ?c + 1) * unat ?o" by simp
    then have m1: "unat (?c * ?o) = unat ?c * unat ?o"
      using le' by (intro unat_mult_sz) linarith
    have m2: "unat ((?c + 1) * ?o) = (unat ?c + 1) * unat ?o"
      using le' uc1 unat_mult_sz [of "?c + 1" ?o] by simp
    have a: "\<not> ucast null_bkt < ?c * ?o"
      using le' m1 by (simp add: word_less_nat_alt unat_ucast_up unat_null_bkt)
    have b: "\<not> ucast null_bkt < (?c + 1) * ?o"
      using le' m2 by (simp add: word_less_nat_alt unat_ucast_up unat_null_bkt)
    show ?thesis using inc a b by (simp add: to_range_def)
  qed
qed

text \<open>
  Claim C4. For all bucket numbers \<open>prev\<close> and \<open>next\<close>, \<open>get_bucket prev next\<close> is
  \<open>to_range next\<close> if that is not \<open>null_bkt\<close> and \<open>prev\<close> is \<open>null_bkt\<close>, or the two map to
  different slots, or the slot of \<open>next\<close> is the current one; otherwise it is \<open>null_bkt\<close>.
  The function only reads the structure: it returns a slot and no new state.
\<close>

theorem get_bucket_rule:
  "get_bucket s prev next =
     (if to_range s next \<noteq> null_bkt \<and>
         (prev = null_bkt \<or> to_range s prev \<noteq> to_range s next \<or>
          ucast (to_range s next) = cur_bkt s)
      then to_range s next else null_bkt)"
  by (simp add: get_bucket_def Let_def)

theorem get_bucket_rule_witness:
  "get_bucket ex_state 1 0 = 0 \<and> get_bucket ex_state 1 1 = null_bkt"
  using get_bucket_rule [of ex_state 1 0] get_bucket_rule [of ex_state 1 1]
  by (simp add: ex_state_def to_range_def null_bkt_def)

text \<open>
  Claim C10. Under increasing order, when \<open>(cur_range + 1) * open_buckets\<close> does not
  exceed \<open>null_bkt\<close>, \<open>to_range null_bkt\<close> is the overflow slot \<open>open_buckets\<close>, which is not
  \<open>null_bkt\<close> unless \<open>open_buckets\<close> itself is \<open>2^32 - 1\<close>; and \<open>get_bucket prev null_bkt\<close>
  is the overflow slot whenever \<open>prev\<close> is \<open>null_bkt\<close>, or \<open>prev\<close> maps to another slot, or
  the overflow slot is the current one.
\<close>

theorem to_range_null_is_overflow:
  assumes inc: "order s = increasing"
    and le: "(unat (cur_range s) + 1) * unat (open_buckets s) \<le> unat null_bkt"
  shows "to_range s null_bkt = ucast (open_buckets s) \<and>
         (open_buckets s \<noteq> ucast null_bkt \<longrightarrow> to_range s null_bkt \<noteq> null_bkt) \<and>
         (prev = null_bkt \<or> to_range s prev \<noteq> ucast (open_buckets s) \<or>
            open_buckets s = cur_bkt s
          \<longrightarrow> get_bucket s prev null_bkt = ucast (open_buckets s))"
proof -
  let ?o = "open_buckets s"
  have tr: "to_range s null_bkt = ucast ?o" by (rule to_range_null [OF inc le])
  have "1 * unat ?o \<le> (unat (cur_range s) + 1) * unat ?o"
    by (rule mult_le_mono1) simp
  then have ole: "unat ?o < 4294967296" using le by (simp add: unat_null_bkt)
  have rnd: "(ucast (ucast ?o :: uintE) :: size_t) = ?o"
    by (rule ucast_down_up [OF ole])
  have ne: "?o \<noteq> ucast null_bkt \<longrightarrow> (ucast ?o :: uintE) \<noteq> null_bkt"
    using rnd by metis
  have gb: "prev = null_bkt \<or> to_range s prev \<noteq> ucast ?o \<or> ?o = cur_bkt s
      \<longrightarrow> get_bucket s prev null_bkt = ucast ?o"
    using tr rnd by (auto simp: get_bucket_def Let_def)
  show ?thesis using tr ne gb by simp
qed

theorem to_range_null_is_overflow_witness:
  "order ex_state = increasing \<and>
   (unat (cur_range ex_state) + 1) * unat (open_buckets ex_state) \<le> unat null_bkt \<and>
   open_buckets ex_state \<noteq> ucast null_bkt \<and>
   to_range ex_state null_bkt = 3 \<and> to_range ex_state null_bkt \<noteq> null_bkt \<and>
   to_range ex_state 1 \<noteq> ucast (open_buckets ex_state) \<and>
   get_bucket ex_state 1 null_bkt = 3"
proof -
  have h1: "order ex_state = increasing" by (simp add: ex_state_def)
  have h2: "(unat (cur_range ex_state) + 1) * unat (open_buckets ex_state) \<le> unat null_bkt"
    by (simp add: ex_state_def null_bkt_def)
  have h3: "open_buckets ex_state \<noteq> ucast null_bkt" by (simp add: ex_state_def null_bkt_def)
  have h4: "to_range ex_state 1 \<noteq> ucast (open_buckets ex_state)"
    by (simp add: ex_state_def to_range_def null_bkt_def)
  from to_range_null_is_overflow [OF h1 h2, of 1] h3 h4
  have "to_range ex_state null_bkt = ucast (open_buckets ex_state) \<and>
        to_range ex_state null_bkt \<noteq> null_bkt \<and>
        get_bucket ex_state 1 null_bkt = ucast (open_buckets ex_state)"
    by blast
  moreover have "(ucast (open_buckets ex_state) :: uintE) = 3" by (simp add: ex_state_def)
  ultimately show ?thesis using h1 h2 h3 h4 by (simp add: null_bkt_def)
qed

text \<open>
  With \<open>total_buckets = 2^32\<close> the overflow slot index \<open>2^32 - 1\<close> is \<open>null_bkt\<close> itself: the
  bound on \<open>(cur_range + 1) * open_buckets\<close> holds, and yet \<open>to_range null_bkt\<close> is \<open>null_bkt\<close>
  and \<open>get_bucket null_bkt null_bkt\<close> drops the update.
\<close>

theorem to_range_null_at_full_width:
  "order full_width_state = increasing \<and>
   (unat (cur_range full_width_state) + 1) * unat (open_buckets full_width_state)
     \<le> unat null_bkt \<and>
   to_range full_width_state null_bkt = null_bkt \<and>
   get_bucket full_width_state null_bkt null_bkt = null_bkt"
  by (simp add: full_width_state_def to_range_def get_bucket_def null_bkt_def)

subsection \<open>The two paths of the bulk update\<close>

lemma log2_up_le:
  assumes "unat i \<le> 2 ^ n" "n < 64"
  shows "log2_up i \<le> n"
proof (rule ccontr)
  assume "\<not> log2_up i \<le> n"
  then have l: "n < length (takeWhile (\<lambda>a. 2 ^ a < unat i) [0..<64])"
    by (simp add: log2_up_def)
  then have "takeWhile (\<lambda>a. 2 ^ a < unat i) [0..<64] ! n \<in> set (takeWhile (\<lambda>a. 2 ^ a < unat i) [0..<64])"
    by (rule nth_mem)
  moreover have "takeWhile (\<lambda>a. 2 ^ a < unat i) [0..<64] ! n = [0..<64] ! n"
    using l by (rule takeWhile_nth)
  ultimately have "(2::nat) ^ n < unat i"
    using assms(2) by (auto dest: set_takeWhileD)
  then show False using assms(1) by simp
qed

lemma unat_push_bit_1:
  assumes "n < 64"
  shows "unat (push_bit n 1 :: size_t) = 2 ^ n"
proof -
  have "(2::nat) ^ n < 2 ^ 64" using assms by (intro power_strict_increasing) simp_all
  then have "unat (of_nat (2 ^ n) :: size_t) = 2 ^ n" by (intro unat_of_nat_sz) simp
  then show ?thesis by (simp add: push_bit_eq_mult)
qed

lemma num_blocks_bounds:
  assumes "unat (k :: size_t) < 4294967296"
  shows "0 < unat (push_bit (log2_up (k div 4096)) 1 :: size_t)"
    and "unat (push_bit (log2_up (k div 4096)) 1 :: size_t) \<le> 1048576"
proof -
  have "unat (k div 4096) = unat k div 4096" by (simp add: unat_div)
  then have "unat (k div 4096) \<le> 2 ^ 20" using assms by simp
  then have l: "log2_up (k div 4096) \<le> 20" by (rule log2_up_le) simp
  then have u: "unat (push_bit (log2_up (k div 4096)) 1 :: size_t) = 2 ^ log2_up (k div 4096)"
    by (intro unat_push_bit_1) simp
  show "0 < unat (push_bit (log2_up (k div 4096)) 1 :: size_t)" unfolding u by simp
  have "(2::nat) ^ log2_up (k div 4096) \<le> 2 ^ 20" using l by (intro power_increasing) simp_all
  then show "unat (push_bit (log2_up (k div 4096)) 1 :: size_t) \<le> 1048576" unfolding u by simp
qed

lemma seq_effect:
  assumes wf: "\<forall>b < length (bkts s). wf_arr (bkts s ! b)"
    and sz: "\<forall>b < length (bkts s).
               unat (da_size (bkts s ! b)) + length (added f (range_sz 0 k) b) \<le> 2147483648"
    and dests: "\<forall>vb \<in> set (batch f (range_sz 0 k)). unat (snd vb) < length (bkts s)"
  shows "\<exists>s'. update_buckets_seq f k s = Inr (of_nat (length (batch f (range_sz 0 k))), s') \<and>
              slots_extend (added f (range_sz 0 k)) s s' \<and>
              num_elms s' = num_elms s + of_nat (length (batch f (range_sz 0 k)))"
proof -
  from seq_loop_effect [OF wf dests sz] obtain s' where
    r: "for_loop (range_sz 0 k) (update_seq_step f) s = Inr s'"
    and e: "slots_extend (added f (range_sz 0 k)) s s'"
    and n: "num_elms s' = num_elms s + of_nat (length (batch f (range_sz 0 k)))"
    by blast
  have "update_buckets_seq f k s = Inr (of_nat (length (batch f (range_sz 0 k))), s')"
    using r n by (simp add: update_buckets_seq_def Let_def)
  then show ?thesis using e n by blast
qed

lemma update_preD:
  assumes "update_pre f k s"
  shows "unat k < 4294967296" "length (bkts s) = unat (total_buckets s)"
    "unat (total_buckets s) \<le> 4294967296"
    "\<forall>b < length (bkts s). wf_arr (bkts s ! b)"
    "\<forall>b < length (bkts s).
        unat (da_size (bkts s ! b)) + length (added f (range_sz 0 k) b) < 18446744073709551616"
    "\<forall>vb \<in> set (batch f (range_sz 0 k)). unat (snd vb) < length (bkts s)"
    "\<forall>b < length (bkts s).
        unat (da_size (bkts s ! b)) + length (added f (range_sz 0 k) b) \<le> 2147483648"
proof -
  show k: "unat k < 4294967296" and "length (bkts s) = unat (total_buckets s)"
    and "unat (total_buckets s) \<le> 4294967296"
    and "\<forall>vb \<in> set (batch f (range_sz 0 k)). unat (snd vb) < length (bkts s)"
    using assms unfolding update_pre_def by blast+
  have a: "\<forall>a \<in> set (bkts s). wf_arr a \<and> unat (da_size a) + unat k \<le> 2147483648"
    using assms unfolding update_pre_def by blast
  then show "\<forall>b < length (bkts s). wf_arr (bkts s ! b)" by simp
  have le: "length (added f (range_sz 0 k) b) \<le> unat k" for b
    using cnt_le_batch [of f "range_sz 0 k" b] length_batch_le [of f "range_sz 0 k"]
    by (simp add: cnt_def range_sz_def)
  show n: "\<forall>b < length (bkts s).
        unat (da_size (bkts s ! b)) + length (added f (range_sz 0 k) b) \<le> 2147483648"
  proof (intro allI impI)
    fix b assume "b < length (bkts s)"
    then have "unat (da_size (bkts s ! b)) + unat k \<le> 2147483648" using a by simp
    then show "unat (da_size (bkts s ! b)) + length (added f (range_sz 0 k) b) \<le> 2147483648"
      using le [of b] by linarith
  qed
  show "\<forall>b < length (bkts s).
        unat (da_size (bkts s ! b)) + length (added f (range_sz 0 k) b) < 18446744073709551616"
    using n by fastforce
qed

lemma update_effect:
  assumes "update_pre f k s"
  shows "\<exists>s'. update_buckets rt f k s = Inr (of_nat (length (batch f (range_sz 0 k))), s') \<and>
              slots_extend (added f (range_sz 0 k)) s s' \<and>
              num_elms s' = num_elms s + of_nat (length (batch f (range_sz 0 k)))"
proof (cases "k < kSequentialForThreshold rt \<or> nworkers rt = 1")
  case True
  then have "update_buckets rt f k s = update_buckets_seq f k s"
    by (simp add: update_buckets_def)
  then show ?thesis
    using seq_effect [OF update_preD(4,7,6) [OF assms]] by simp
next
  case False
  let ?nb = "push_bit (log2_up (k div 4096)) 1 :: size_t"
  note p = update_preD [OF assms]
  have "update_buckets rt f k s = update_buckets_par ?nb f k s"
    using False by (simp add: update_buckets_def Let_def)
  then show ?thesis
    using par_effect [OF num_blocks_bounds [OF p(1)] p(1-6)] by simp
qed




subsection \<open>What a call of next_bucket returns\<close>

lemma for_loop_inv:
  assumes "\<And>i s s'. P s \<Longrightarrow> body i s = Inr s' \<Longrightarrow> P s'"
    and "P s" and "for_loop js body s = Inr s'"
  shows "P s'"
  using assms(2,3)
proof (induction js arbitrary: s)
  case Nil
  then show ?case by simp
next
  case (Cons j js)
  from Cons.prems(2) obtain s1 where 1: "body j s = Inr s1" and 2: "for_loop js body s1 = Inr s'"
    by (auto split: sum.splits)
  from assms(1) [OF Cons.prems(1) 1] have "P s1" .
  from Cons.IH [OF this 2] show ?case .
qed

lemma fold_inv:
  assumes "\<And>i s. P s \<Longrightarrow> P (g i s)" and "P s"
  shows "P (fold g js s)"
  using assms(2) by (induction js arbitrary: s) (simp_all add: assms(1))

lemma same_shape_refl [simp]: "same_shape s s"
  by (simp add: same_shape_def)

lemma update_seq_step_shape:
  "same_shape s0 s \<Longrightarrow> update_seq_step f i s = Inr s' \<Longrightarrow> same_shape s0 s'"
  by (auto simp: update_seq_step_eq [of f i s] same_shape_def frame_eq_def
           split: option.splits prod.splits if_splits)

lemma update_buckets_seq_shape:
  assumes "update_buckets_seq f k s = Inr (c, s')"
  shows "same_shape s s'"
proof -
  from assms have "for_loop (range_sz 0 k) (update_seq_step f) s = Inr s'"
    by (auto simp: update_buckets_seq_def Let_def split: sum.splits)
  from for_loop_inv [where P = "same_shape s", OF update_seq_step_shape _ this]
  show ?thesis by simp
qed

lemma resize_slot_shape: "same_shape s0 s \<Longrightarrow> same_shape s0 (resize_slot outs nb i s)"
  by (simp add: resize_slot_def same_shape_def)

lemma commit_slot_shape: "same_shape s0 s \<Longrightarrow> same_shape s0 (commit_slot outs nb i s)"
  by (simp add: commit_slot_def same_shape_def Let_def)

lemma scatter_item_shape:
  "same_shape s0 (snd hs) \<Longrightarrow> scatter_item f nb i j hs = Inr hs' \<Longrightarrow> same_shape s0 (snd hs')"
  by (cases hs)
     (auto simp: scatter_item_eq same_shape_def split: option.splits prod.splits if_splits)

lemma scatter_block_shape:
  "same_shape s0 (snd hs) \<Longrightarrow> scatter_block f k bsz nb i hs = Inr hs' \<Longrightarrow> same_shape s0 (snd hs')"
  unfolding scatter_block_alt
  by (rule for_loop_inv [where P = "\<lambda>hs. same_shape s0 (snd hs)"]) (auto intro: scatter_item_shape)

lemma update_buckets_par_shape:
  assumes "update_buckets_par nb f k s = Inr (c, s')"
  shows "same_shape s s'"
proof -
  let ?tb = "total_buckets s"
  let ?bsz = "(k + nb - 1) div nb"
  from assms obtain h1 where
    h1: "for_loop (range_sz 0 nb) (hist_block f k ?bsz ?tb (length (bkts s))) (\<lambda>_. 0) = Inr h1"
    by (auto simp: update_buckets_par_def Let_def split: sum.splits)
  let ?outs = "make_outs h1 nb ?tb"
  let ?s3 = "fold (resize_slot ?outs nb) (range_sz 0 ?tb) s"
  let ?h4 = "fold (offsets_slot ?outs nb) (range_sz 0 ?tb) h1"
  from assms h1 obtain h5 s5 where
    e5: "for_loop (range_sz 0 nb) (scatter_block f k ?bsz nb) (?h4, ?s3) = Inr (h5, s5)"
    and s': "s' = fold (commit_slot ?outs nb) (range_sz 0 ?tb) s5"
    by (auto simp: update_buckets_par_def Let_def split: sum.splits prod.splits)
  have 3: "same_shape s ?s3"
    by (rule fold_inv [where P = "same_shape s"]) (simp_all add: resize_slot_shape)
  have 5: "same_shape s s5"
    using for_loop_inv [where P = "\<lambda>hs. same_shape s (snd hs)", OF scatter_block_shape _ e5] 3
    by simp
  show ?thesis unfolding s'
    by (rule fold_inv [where P = "same_shape s"]) (simp_all add: commit_slot_shape 5)
qed

lemma update_buckets_shape:
  assumes "update_buckets rt f k s = Inr (c, s')"
  shows "same_shape s s'"
  using assms update_buckets_seq_shape update_buckets_par_shape
  by (auto simp: update_buckets_def Let_def split: if_splits)

lemma unpack_alt:
  "unpack rt s =
     (if length (bkts s) \<le> unat (open_buckets s) then Inl OutOfBounds
      else if da_size (bkts s ! unat (open_buckets s)) \<noteq> num_elms s
      then Inl (Corrupt (da_size (bkts s ! unat (open_buckets s))) (num_elms s)
                  (get_cur_bucket_num ((unpack_prep s)\<lparr>cur_bkt := 0\<rparr>)))
      else (case update_buckets rt (unpack_g s) (da_size (bkts s ! unat (open_buckets s)))
                   (unpack_prep s) of
              Inl e \<Rightarrow> Inl e
            | Inr (c, s3) \<Rightarrow>
                Inr (s3\<lparr>num_elms := num_elms s3 - da_size (bkts s ! unat (open_buckets s))\<rparr>)))"
  by (simp add: unpack_def unpack_prep_def unpack_g_def Let_def)

lemma unpack_frame:
  assumes "unpack rt s = Inr s'"
  shows "d_b s' = d_b s" "order s' = order s" "open_buckets s' = open_buckets s"
    "total_buckets s' = total_buckets s" "cur_bkt s' = cur_bkt s"
    "length (bkts s') = length (bkts s)"
    "cur_range s' = (if order s = increasing then cur_range s + 1 else cur_range s - 1)"
proof -
  let ?m = "da_size (bkts s ! unat (open_buckets s))"
  from assms obtain c s3 where u: "update_buckets rt (unpack_g s) ?m (unpack_prep s) = Inr (c, s3)"
    and s': "s' = s3\<lparr>num_elms := num_elms s3 - ?m\<rparr>"
    unfolding unpack_alt by (auto split: if_splits sum.splits prod.splits)
  from update_buckets_shape [OF u] have sh: "same_shape (unpack_prep s) s3" .
  show "d_b s' = d_b s" "order s' = order s" "open_buckets s' = open_buckets s"
    "total_buckets s' = total_buckets s" "cur_bkt s' = cur_bkt s"
    "length (bkts s') = length (bkts s)"
    "cur_range s' = (if order s = increasing then cur_range s + 1 else cur_range s - 1)"
    using sh unfolding s' by (simp_all add: same_shape_def frame_eq_def unpack_prep_def)
qed

lemma next_bucket_step_frame:
  assumes "next_bucket_step rt s = Inr s'"
  shows "d_b s' = d_b s" "order s' = order s" "open_buckets s' = open_buckets s"
    "total_buckets s' = total_buckets s" "length (bkts s') = length (bkts s)"
proof -
  let ?s1 = "s\<lparr>cur_bkt := cur_bkt s + 1\<rparr>"
  have "d_b s' = d_b s \<and> order s' = order s \<and> open_buckets s' = open_buckets s \<and>
    total_buckets s' = total_buckets s \<and> length (bkts s') = length (bkts s)"
  proof (cases "cur_bkt s + 1 = open_buckets s")
    case True
    then obtain s2 where u: "unpack rt ?s1 = Inr s2" and s': "s' = s2\<lparr>cur_bkt := 0\<rparr>"
      using assms by (auto simp: next_bucket_step_def Let_def split: sum.splits)
    from unpack_frame [OF u] show ?thesis unfolding s' by simp
  next
    case False
    then have "s' = ?s1" using assms by (simp add: next_bucket_step_def Let_def)
    then show ?thesis by simp
  qed
  then show "d_b s' = d_b s" "order s' = order s" "open_buckets s' = open_buckets s"
    "total_buckets s' = total_buckets s" "length (bkts s') = length (bkts s)"
    by simp_all
qed

lemma skip_empty_result:
  assumes "skip_empty rt s = Some r"
  shows "scan_post s r"
proof (rule skip_empty.raw_induct [where P = "\<lambda>rt s r. scan_post s r", OF _ assms])
  fix f rt s r
  assume IH: "\<And>rt s r. f rt s = Some r \<Longrightarrow> scan_post s r"
    and eq: "(if length (bkts s) \<le> unat (cur_bkt s) then Some (Inl OutOfBounds)
      else if \<not> curBucketNonEmpty s \<and> 0 < num_elms s
           then case next_bucket_step rt s of Inl e \<Rightarrow> Some (Inl e)
                | Inr s' \<Rightarrow> f rt s'
           else Some (Inr s)) = Some r"
  show "scan_post s r"
  proof (cases "length (bkts s) \<le> unat (cur_bkt s)")
    case True
    then have "r = Inl OutOfBounds" using eq by simp
    then show ?thesis by (simp add: scan_post_def)
  next
    case inb: False
    show ?thesis
    proof (cases "\<not> curBucketNonEmpty s \<and> 0 < num_elms s")
      case False
      then have "r = Inr s" using eq inb by auto
      then show ?thesis using False inb by (auto simp: scan_post_def word_gt_0)
    next
      case True
      show ?thesis
      proof (cases "next_bucket_step rt s")
        case (Inl e)
        then have "r = Inl e" using eq inb True by simp
        then show ?thesis by (simp add: scan_post_def)
      next
        case (Inr s1)
        then have "f rt s1 = Some r" using eq inb True by simp
        from IH [OF this] next_bucket_step_frame [OF Inr]
        show ?thesis by (auto simp: scan_post_def split: sum.splits)
      qed
    qed
  qed
qed

lemma get_cur_bucket_num_cong:
  "order s' = order s \<Longrightarrow> cur_range s' = cur_range s \<Longrightarrow> open_buckets s' = open_buckets s \<Longrightarrow>
   cur_bkt s' = cur_bkt s \<Longrightarrow> get_cur_bucket_num s' = get_cur_bucket_num s"
  by (simp add: get_cur_bucket_num_def)

lemma drain_result:
  assumes "drain s = (b, s')"
  shows "bkt_id b = get_cur_bucket_num s"
    and "num_filtered b = Some (da_size (bkts s ! unat (cur_bkt s)))"
    and "identifiers b = filter (\<lambda>i. ucast (d_b s i) = get_cur_bucket_num s)
                           (elems (bkts s ! unat (cur_bkt s)))"
    and "s' = s\<lparr>num_elms := num_elms s - da_size (bkts s ! unat (cur_bkt s)),
               bkts := (bkts s)[unat (cur_bkt s) := (bkts s ! unat (cur_bkt s))\<lparr>da_size := 0\<rparr>]\<rparr>"
proof -
  have n: "get_cur_bucket_num (s\<lparr>num_elms := x\<rparr>) = get_cur_bucket_num s" for x
    by (simp add: get_cur_bucket_num_def)
  from assms have b: "b = \<lparr>bkt_id = get_cur_bucket_num s,
        num_filtered = Some (da_size (bkts s ! unat (cur_bkt s))),
        identifiers = filter (\<lambda>i. ucast (d_b s i) = get_cur_bucket_num s)
                           (elems (bkts s ! unat (cur_bkt s)))\<rparr>"
    and s: "s' = s\<lparr>num_elms := num_elms s - da_size (bkts s ! unat (cur_bkt s)),
               bkts := (bkts s)[unat (cur_bkt s) := (bkts s ! unat (cur_bkt s))\<lparr>da_size := 0\<rparr>]\<rparr>"
    by (simp_all add: drain_def Let_def n)
  show "bkt_id b = get_cur_bucket_num s"
    and "num_filtered b = Some (da_size (bkts s ! unat (cur_bkt s)))"
    and "identifiers b = filter (\<lambda>i. ucast (d_b s i) = get_cur_bucket_num s)
                           (elems (bkts s ! unat (cur_bkt s)))"
    by (simp_all add: b)
  show "s' = s\<lparr>num_elms := num_elms s - da_size (bkts s ! unat (cur_bkt s)),
               bkts := (bkts s)[unat (cur_bkt s) := (bkts s ! unat (cur_bkt s))\<lparr>da_size := 0\<rparr>]\<rparr>"
    by (rule s)
qed

lemma drain_frame:
  assumes "drain s = (b, s')"
  shows "d_b s' = d_b s" "order s' = order s" "open_buckets s' = open_buckets s"
    "total_buckets s' = total_buckets s" "length (bkts s') = length (bkts s)"
    "cur_bkt s' = cur_bkt s" "cur_range s' = cur_range s"
    "get_cur_bucket_num s' = get_cur_bucket_num s"
  using drain_result(4) [OF assms] by (simp_all add: get_cur_bucket_num_def)

lemma emitted_from_trans:
  assumes "d_b s2 = d_b s" "order s2 = order s" "open_buckets s2 = open_buckets s"
    "total_buckets s2 = total_buckets s" "length (bkts s2) = length (bkts s)"
    and "emitted_from s2 s1 b s'"
  shows "emitted_from s s1 b s'"
  using assms by (simp add: emitted_from_def)

lemma next_bucket_result:
  assumes "next_bucket rt s = Some r"
  shows "emit_post s r"
proof (rule next_bucket.raw_induct [where P = "\<lambda>rt s r. emit_post s r", OF _ assms])
  fix f rt s r
  assume IH: "\<And>rt s r. f rt s = Some r \<Longrightarrow> emit_post s r"
    and eq: "Option.bind (skip_empty rt s)
      (\<lambda>r. case r of Inl e \<Rightarrow> Some (Inl e)
           | Inr s1 \<Rightarrow>
               if num_elms s1 = 0 then Some (Inr (sentinel, s1))
               else case drain s1 of
                    (b, s2) \<Rightarrow>
                      if identifiers b = [] then f rt s2
                      else Some (Inr (b, s2))) = Some r"
  from eq obtain r1 where sk: "skip_empty rt s = Some r1"
    by (cases "skip_empty rt s") simp_all
  note sp = skip_empty_result [OF sk]
  show "emit_post s r"
  proof (cases r1)
    case (Inl e)
    then have "r = Inl e" using eq sk by simp
    then show ?thesis by (simp add: emit_post_def)
  next
    case (Inr s1)
    note s1 = sp [unfolded scan_post_def Inr, simplified]
    show ?thesis
    proof (cases "num_elms s1 = 0")
      case True
      then have "r = Inr (sentinel, s1)" using eq sk Inr by simp
      then show ?thesis using True s1 by (simp add: emit_post_def)
    next
      case ne: False
      obtain b s2 where d: "drain s1 = (b, s2)" by (cases "drain s1")
      note df = drain_frame [OF d]
      show ?thesis
      proof (cases "identifiers b = []")
        case True
        then have "f rt s2 = Some r" using eq sk Inr ne d by simp
        from IH [OF this] have p: "emit_post s2 r" .
        show ?thesis
        proof (cases r)
          case (Inl e)
          then show ?thesis by (simp add: emit_post_def)
        next
          case (Inr bs)
          obtain b' s' where bs: "bs = (b', s')" by (cases bs)
          from p have "(b' = sentinel \<and> num_elms s' = 0 \<and> d_b s' = d_b s2) \<or>
                       (\<exists>s3. emitted_from s2 s3 b' s')"
            by (simp add: emit_post_def Inr bs)
          then show ?thesis
          proof
            assume "b' = sentinel \<and> num_elms s' = 0 \<and> d_b s' = d_b s2"
            then show ?thesis using df s1 by (simp add: emit_post_def Inr bs)
          next
            assume "\<exists>s3. emitted_from s2 s3 b' s'"
            then obtain s3 where e: "emitted_from s2 s3 b' s'" ..
            have "emitted_from s s3 b' s'"
              using e df s1 by (intro emitted_from_trans [OF _ _ _ _ _ e]) simp_all
            then show ?thesis by (auto simp: emit_post_def Inr bs)
          qed
        qed
      next
        case False
        then have r: "r = Inr (b, s2)" using eq sk Inr ne d by simp
        have "emitted_from s s1 b s2"
          using s1 ne d False by (simp add: emitted_from_def)
        then show ?thesis by (auto simp: emit_post_def r)
      qed
    qed
  qed
qed

lemma next_bucket_unfold:
  "skip_empty rt s = Some (Inr s1) \<Longrightarrow>
   next_bucket rt s =
     (if num_elms s1 = 0 then Some (Inr (sentinel, s1))
      else case drain s1 of
             (b, s2) \<Rightarrow> if identifiers b = [] then next_bucket rt s2 else Some (Inr (b, s2)))"
  by (subst next_bucket.simps) simp

lemma next_bucket_error:
  "skip_empty rt s = Some (Inl e) \<Longrightarrow> next_bucket rt s = Some (Inl e)"
  by (subst next_bucket.simps) simp

text \<open>
  Claim C3. When \<open>next_bucket\<close> returns a bucket other than the sentinel, the bucket was
  drained from the current slot of a state \<open>s1\<close> of the same call: every identifier of the
  returned set has the returned bucket number as its priority, the set is the slot's
  content filtered by that test, and \<open>num_filtered\<close> is the slot's size before the
  filter.
\<close>

theorem emitted_bucket_correct:
  assumes "next_bucket rt s = Some (Inr (b, s'))" and "b \<noteq> sentinel"
  shows "(\<forall>i \<in> set (identifiers b). ucast (d_b s i) = bkt_id b) \<and>
         (\<exists>s1. drain s1 = (b, s') \<and> d_b s1 = d_b s \<and>
               num_filtered b = Some (da_size (bkts s1 ! unat (cur_bkt s1))) \<and>
               identifiers b = filter (\<lambda>i. ucast (d_b s i) = bkt_id b)
                                      (elems (bkts s1 ! unat (cur_bkt s1))))"
proof -
  from next_bucket_result [OF assms(1)] assms(2)
  obtain s1 where e: "emitted_from s s1 b s'"
    by (auto simp: emit_post_def)
  then have d: "drain s1 = (b, s')" and ds: "d_b s1 = d_b s"
    by (simp_all add: emitted_from_def)
  note r = drain_result [OF d]
  have ids: "identifiers b = filter (\<lambda>i. ucast (d_b s i) = bkt_id b)
                                      (elems (bkts s1 ! unat (cur_bkt s1)))"
    using r(3) by (simp add: r(1) ds)
  have "\<forall>i \<in> set (identifiers b). ucast (d_b s i) = bkt_id b"
    by (subst ids) simp
  then show ?thesis using d ds r(2) ids by blast
qed

lemma ex_state_skip:
  "skip_empty ex_rt ex_state = Some (Inr (ex_state\<lparr>cur_bkt := 1\<rparr>))"
  by (simp add: skip_empty.simps ex_state_def curBucketNonEmpty_def next_bucket_step_def Let_def)

lemma ex_state_next:
  "next_bucket ex_rt ex_state =
     Some (Inr (\<lparr>bkt_id = 1, num_filtered = Some 1, identifiers = [1]\<rparr>,
                ex_state\<lparr>cur_bkt := 1, num_elms := 1,
                          bkts := [\<lparr>da_A = [0, 0], da_size = 0\<rparr>, \<lparr>da_A = [1, 0], da_size = 0\<rparr>,
                                   \<lparr>da_A = [2, 0], da_size = 1\<rparr>, empty_arr]\<rparr>))"
  by (simp add: next_bucket_unfold [OF ex_state_skip])
     (simp add: ex_state_def drain_def Let_def get_cur_bucket_num_def elems_def)

theorem emitted_bucket_correct_witness:
  "\<exists>b s'. next_bucket ex_rt ex_state = Some (Inr (b, s')) \<and> b \<noteq> sentinel \<and>
     bkt_id b = 1 \<and> identifiers b = [1] \<and>
     (\<forall>i \<in> set (identifiers b). ucast (d_b ex_state i) = bkt_id b) \<and>
     (\<exists>s1. drain s1 = (b, s') \<and> d_b s1 = d_b ex_state \<and>
           num_filtered b = Some (da_size (bkts s1 ! unat (cur_bkt s1))) \<and>
           identifiers b = filter (\<lambda>i. ucast (d_b ex_state i) = bkt_id b)
                                  (elems (bkts s1 ! unat (cur_bkt s1))))"
proof -
  let ?b = "\<lparr>bkt_id = 1, num_filtered = Some 1, identifiers = [1]\<rparr>"
  have ne: "?b \<noteq> sentinel" by (simp add: sentinel_def)
  from emitted_bucket_correct [OF ex_state_next ne] ex_state_next ne
  show ?thesis by (intro exI [of _ ?b]) auto
qed


lemma dest_all_to_first [simp]: "dest_of all_to_first j = Some (0, 0)"
  by (simp add: dest_of_def all_to_first_def null_bkt_def)








lemma next_bucket_eval:
  "next_bucket rt s =
     (case skip_empty rt s of
        None \<Rightarrow> None
      | Some (Inl e) \<Rightarrow> Some (Inl e)
      | Some (Inr s1) \<Rightarrow>
          if num_elms s1 = 0 then Some (Inr (sentinel, s1))
          else case drain s1 of
                 (b, s2) \<Rightarrow> if identifiers b = [] then next_bucket rt s2 else Some (Inr (b, s2)))"
  by (subst next_bucket.simps) (simp split: option.splits sum.splits)

lemma small_seq:
  assumes "small_batches rt" "unat k \<le> 5"
  shows "update_buckets rt f k s = update_buckets_seq f k s"
proof -
  have "k < kSequentialForThreshold rt \<or> nworkers rt = 1"
    using assms by (auto simp: small_batches_def word_less_nat_alt)
  then show ?thesis by (simp add: update_buckets_def)
qed

lemma replicate_num: "replicate (numeral k) x = x # replicate (pred_numeral k) x"
  by (simp add: numeral_eq_Suc)

lemma upd_Cons_num: "(x # xs)[numeral k := y] = x # xs[pred_numeral k := y]"
  by (simp add: numeral_eq_Suc)

lemma run_next_num:
  "run_next (numeral k) rt s =
     (case next_bucket rt s of
        Some (Inr (b, s')) \<Rightarrow>
          map_option ((#) (bkt_id b, identifiers b, map elems (bkts s'), cur_range s'))
                     (run_next (pred_numeral k) rt s')
      | _ \<Rightarrow> None)"
  by (simp add: numeral_eq_Suc)

lemmas eval_defs =
  make_buckets_def reduce_def range_sz_def to_range_def update_buckets_seq_def
  update_seq_step_def insert_in_bucket_def resize_def Let_def null_bkt_def empty_arr_def
  elems_def skip_empty.simps next_bucket_eval curBucketNonEmpty_def next_bucket_step_def
  unpack_def drain_def get_cur_bucket_num_def sentinel_def
  upt_rec [of _ "numeral n" for n] replicate_num upd_Cons_num run_next_num

lemma scenario_init:
  assumes "small_batches rt"
  shows "make_buckets rt 5 D8 increasing 3 =
         Inr \<lparr>order = increasing,
              bkts = [\<lparr>da_A = [0, 0], da_size = 1\<rparr>, \<lparr>da_A = [1, 0], da_size = 1\<rparr>,
                      \<lparr>da_A = [2, 3, 4, 0, 0, 0], da_size = 3\<rparr>],
              cur_bkt = 0, max_bkt = 3, cur_range = 0, d_b = D8, n_b = 5,
              num_elms = 5, open_buckets = 2, total_buckets = 3, allocated = True\<rparr>"
  by (simp add: eval_defs small_seq [OF assms] D8_def)

text \<open>
  Claim C8. With \<open>n = 5\<close>, \<open>total_buckets = 3\<close>, increasing order and \<open>D = [0,1,2,3,4]\<close>:
  construction gives \<open>cur_range = 0\<close>, the open slots \<open>{0}\<close>, \<open>{1}\<close> and the overflow
  \<open>{2,3,4}\<close>; six calls of \<open>next_bucket\<close> return \<open>(0,{0})\<close>, \<open>(1,{1})\<close>, \<open>(2,{2})\<close>, \<open>(3,{3})\<close>,
  \<open>(4,{4})\<close> and the sentinel; the third call unpacks to range 1 (slots \<open>{2}\<close>, \<open>{3}\<close>,
  overflow \<open>{4}\<close>, of which \<open>{2}\<close> is returned), the fifth to range 2.
\<close>

theorem overflow_unpack_scenario:
  assumes "small_batches rt"
  shows "(case make_buckets rt 5 D8 increasing 3 of
            Inl e \<Rightarrow> None
          | Inr s0 \<Rightarrow> Some (cur_range s0, map elems (bkts s0), run_next 6 rt s0)) =
         Some (0, [[0], [1], [2, 3, 4]],
               Some [(0, [0], [[], [1], [2, 3, 4]], 0),
                     (1, [1], [[], [], [2, 3, 4]], 0),
                     (2, [2], [[], [3], [4]], 1),
                     (3, [3], [[], [], [4]], 1),
                     (4, [4], [[], [], []], 2),
                     (ucast null_bkt, [], [[], [], []], 2)])"
  unfolding scenario_init [OF assms]
  by (simp add: eval_defs small_seq [OF assms] D8_def)

theorem overflow_unpack_scenario_witness:
  "small_batches ex_rt \<and>
   (case make_buckets ex_rt 5 D8 increasing 3 of
      Inl e \<Rightarrow> None
    | Inr s0 \<Rightarrow> Some (cur_range s0, map elems (bkts s0), run_next 6 ex_rt s0)) =
   Some (0, [[0], [1], [2, 3, 4]],
         Some [(0, [0], [[], [1], [2, 3, 4]], 0),
               (1, [1], [[], [], [2, 3, 4]], 0),
               (2, [2], [[], [3], [4]], 1),
               (3, [3], [[], [], [4]], 1),
               (4, [4], [[], [], []], 2),
               (ucast null_bkt, [], [[], [], []], 2)])"
proof -
  have h: "small_batches ex_rt" by (simp add: small_batches_def ex_rt_def)
  show ?thesis using h overflow_unpack_scenario [OF h] by simp
qed

end
